theory Spec2Isabelle
  imports Complex_Main "HOL-Library.Monad_Syntax"
begin

section \<open>Data model of the Xonix engine\<close>

text \<open>
  The cell states are the class constants \<open>EMPTY = 0\<close>, \<open>CLAIMED = 1\<close>, \<open>BORDER = 2\<close>,
  \<open>TRAIL = 3\<close> of \<open>XonixGame\<close>.
\<close>

datatype cell = EMPTY | CLAIMED | BORDER | TRAIL

text \<open>
  Class \<open>Enemy\<close>. \<open>reset_game_state\<close> creates every enemy with integer coordinates
  (\<open>random.randint(..) * GRID_SIZE\<close>) and integer velocities (\<open>random.choice([-2, 2])\<close>), and
  \<open>update_enemies\<close> only adds and negates them, so the fields hold Python integers and
  \<open>//\<close> is the floor division \<open>div\<close>.
\<close>

record enemy =
  enemy_x :: int
  enemy_y :: int
  enemy_vx :: int
  enemy_vy :: int
  enemy_radius :: int

text \<open>
  Class \<open>XonixGame\<close>: the class-level constants that the methods read through \<open>self\<close>,
  followed by the instance attributes set in \<open>__init__\<close>. The grid is a list of rows,
  \<open>grid[y][x]\<close>. The score is a Python float, idealised as a real number.
\<close>

record xonix =
  GRID_SIZE :: int
  GRID_WIDTH :: int
  GRID_HEIGHT :: int
  TARGET_PERCENTAGE :: real
  INITIAL_ENEMIES :: int
  grid :: "cell list list"
  player_x :: int
  player_y :: int
  enemies :: "enemy list"
  trail :: "(int \<times> int) list"
  drawing :: bool
  score :: real
  running :: bool
  game_over :: bool
  game_won :: bool
  message :: string

definition WINDOW_WIDTH :: "xonix \<Rightarrow> int" where
  "WINDOW_WIDTH s = GRID_SIZE s * GRID_WIDTH s"

text \<open>The object \<open>XonixGame()\<close> as \<open>__init__\<close> leaves it, with the constants of the class.\<close>

definition XonixGame :: xonix where
  "XonixGame = \<lparr> GRID_SIZE = 10, GRID_WIDTH = 70, GRID_HEIGHT = 50,
     TARGET_PERCENTAGE = 75, INITIAL_ENEMIES = 3,
     grid = [], player_x = 0, player_y = 0, enemies = [], trail = [], drawing = False,
     score = 0, running = True, game_over = False, game_won = False, message = [] \<rparr>"

datatype key = K_UP | K_DOWN | K_LEFT | K_RIGHT | K_ESCAPE | K_SPACE | K_OTHER

datatype event = QUIT | KEYDOWN key | OTHER_EVENT

section \<open>Python subscripts\<close>

text \<open>
  \<open>xs[i]\<close> accepts \<open>-len(xs) \<le> i < len(xs)\<close>, a negative index counting from the end, and
  raises \<open>IndexError\<close> otherwise. An exception is the value \<open>None\<close> throughout.
\<close>

definition py_index :: "'a list \<Rightarrow> int \<Rightarrow> nat option" where
  "py_index xs i =
     (let n = int (length xs)
      in if 0 \<le> i \<and> i < n then Some (nat i)
         else if - n \<le> i \<and> i < 0 then Some (nat (i + n))
         else None)"

text \<open>\<open>self.grid[y][x]\<close> and \<open>self.grid[y][x] = v\<close>.\<close>

definition grid_read :: "cell list list \<Rightarrow> int \<Rightarrow> int \<Rightarrow> cell option" where
  "grid_read g x y =
     (case py_index g y of None \<Rightarrow> None
      | Some r \<Rightarrow> (case py_index (g ! r) x of None \<Rightarrow> None
                  | Some c \<Rightarrow> Some (g ! r ! c)))"

definition grid_write :: "cell list list \<Rightarrow> int \<Rightarrow> int \<Rightarrow> cell \<Rightarrow> cell list list option" where
  "grid_write g x y v =
     (case py_index g y of None \<Rightarrow> None
      | Some r \<Rightarrow> (case py_index (g ! r) x of None \<Rightarrow> None
                  | Some c \<Rightarrow> Some (g[r := (g ! r)[c := v]])))"

text \<open>A \<open>for\<close> loop over a list whose body may raise.\<close>

fun for_each :: "'a list \<Rightarrow> ('a \<Rightarrow> 's \<Rightarrow> 's option) \<Rightarrow> 's \<Rightarrow> 's option" where
  "for_each [] f s = Some s"
| "for_each (a # as) f s = (case f a s of None \<Rightarrow> None | Some s' \<Rightarrow> for_each as f s')"

text \<open>\<open>for x, y in cells: self.grid[y][x] = v\<close>.\<close>

definition set_cells :: "cell \<Rightarrow> (int \<times> int) list \<Rightarrow> cell list list \<Rightarrow> cell list list option" where
  "set_cells v cells g = for_each cells (\<lambda>(x, y) g'. grid_write g' x y v) g"

section \<open>GridModel\<close>

text \<open>The test \<open>0 <= x < self.GRID_WIDTH and 0 <= y < self.GRID_HEIGHT\<close>.\<close>

definition in_board :: "xonix \<Rightarrow> int \<Rightarrow> int \<Rightarrow> bool" where
  "in_board s x y \<longleftrightarrow> 0 \<le> x \<and> x < GRID_WIDTH s \<and> 0 \<le> y \<and> y < GRID_HEIGHT s"

definition get_cell_state :: "xonix \<Rightarrow> int \<Rightarrow> int \<Rightarrow> cell option" where
  "get_cell_state s x y = (if in_board s x y then grid_read (grid s) x y else Some BORDER)"

definition is_on_border_or_claimed :: "xonix \<Rightarrow> int \<Rightarrow> int \<Rightarrow> bool option" where
  "is_on_border_or_claimed s x y =
     (case get_cell_state s x y of None \<Rightarrow> None
      | Some state \<Rightarrow> Some (state \<in> set [BORDER, CLAIMED]))"

text \<open>
  The interior coordinates in the order of
  \<open>for y in range(1, GRID_HEIGHT - 1): for x in range(1, GRID_WIDTH - 1)\<close>.
\<close>

definition interior :: "xonix \<Rightarrow> (int \<times> int) list" where
  "interior s = concat (map (\<lambda>y. map (\<lambda>x. (x, y)) [1..GRID_WIDTH s - 2]) [1..GRID_HEIGHT s - 2])"

fun count_claimed :: "cell list list \<Rightarrow> (int \<times> int) list \<Rightarrow> nat option" where
  "count_claimed g [] = Some 0"
| "count_claimed g ((x, y) # cs) =
     (case grid_read g x y of None \<Rightarrow> None
      | Some c \<Rightarrow> (case count_claimed g cs of None \<Rightarrow> None
                  | Some n \<Rightarrow> Some ((if c \<in> set [CLAIMED, BORDER] then 1 else 0) + n)))"

definition calculate_percentage :: "xonix \<Rightarrow> real option" where
  "calculate_percentage s =
     (let total = (GRID_WIDTH s - 2) * (GRID_HEIGHT s - 2)
      in case count_claimed (grid s) (interior s) of None \<Rightarrow> None
         | Some claimed \<Rightarrow>
             Some (if total > 0 then (real claimed / real_of_int total) * 100 else 0))"

section \<open>RegionClaimer\<close>

text \<open>
  The \<open>while stack\<close> loop of \<open>flood_fill\<close>. The head of the list is the end of the Python
  list, where \<open>pop\<close> and \<open>append\<close> work; the four neighbours are appended in the order
  \<open>(0, 1), (0, -1), (1, 0), (-1, 0)\<close>, so the last of them is the new head.
\<close>

function flood_loop ::
  "xonix \<Rightarrow> (int \<times> int) list \<Rightarrow> (int \<times> int) set \<Rightarrow> (int \<times> int) list
     \<Rightarrow> ((int \<times> int) list \<times> (int \<times> int) set) option" where
  "flood_loop s [] visited area = Some (area, visited)"
| "flood_loop s ((x, y) # stack) visited area =
     (if (x, y) \<in> visited then flood_loop s stack visited area
      else if \<not> in_board s x y then flood_loop s stack visited area
      else (case grid_read (grid s) x y of None \<Rightarrow> None
            | Some c \<Rightarrow>
                if c \<noteq> EMPTY then flood_loop s stack visited area
                else flood_loop s ((x - 1, y) # (x + 1, y) # (x, y - 1) # (x, y + 1) # stack)
                       (insert (x, y) visited) (area @ [(x, y)])))"
  by pat_completeness auto

termination flood_loop
proof (relation "measures [\<lambda>(s, stack, visited, area). card ({p. in_board s (fst p) (snd p)} - visited),
                           \<lambda>(s, stack, visited, area). length stack]", goal_cases)
  case 1
  show ?case by simp
next
  case (2 s x y stack visited area)
  then show ?case by simp
next
  case (3 s x y stack visited area)
  then show ?case by simp
next
  case (4 s x y stack visited area c)
  then show ?case by simp
next
  case (5 s x y stack visited area c)
  have "{p. in_board s (fst p) (snd p)} \<subseteq> {0..<GRID_WIDTH s} \<times> {0..<GRID_HEIGHT s}"
    by (auto simp: in_board_def)
  then have "finite {p. in_board s (fst p) (snd p)}"
    by (rule finite_subset) simp
  then have fin: "finite ({p. in_board s (fst p) (snd p)} - visited)"
    by simp
  have "(x, y) \<in> {p. in_board s (fst p) (snd p)} - visited"
    using 5 by simp
  with fin have "card ({p. in_board s (fst p) (snd p)} - visited - {(x, y)})
      < card ({p. in_board s (fst p) (snd p)} - visited)"
    by (rule card_Diff1_less)
  moreover have "{p. in_board s (fst p) (snd p)} - insert (x, y) visited
      = {p. in_board s (fst p) (snd p)} - visited - {(x, y)}"
    by auto
  ultimately show ?case by simp
qed

text \<open>\<open>(int(enemy.x // self.GRID_SIZE), int(enemy.y // self.GRID_SIZE))\<close>.\<close>

definition quantize :: "xonix \<Rightarrow> enemy \<Rightarrow> (int \<times> int) option" where
  "quantize s e =
     (if GRID_SIZE s = 0 then None
      else Some (enemy_x e div GRID_SIZE s, enemy_y e div GRID_SIZE s))"

text \<open>\<open>any(... in visited for enemy in self.enemies)\<close>, which stops at the first hit.\<close>

fun any_enemy_in :: "xonix \<Rightarrow> (int \<times> int) set \<Rightarrow> enemy list \<Rightarrow> bool option" where
  "any_enemy_in s visited [] = Some False"
| "any_enemy_in s visited (e # es) =
     (case quantize s e of None \<Rightarrow> None
      | Some q \<Rightarrow> if q \<in> visited then Some True else any_enemy_in s visited es)"

definition flood_fill :: "xonix \<Rightarrow> int \<Rightarrow> int \<Rightarrow> ((int \<times> int) list \<times> bool) option" where
  "flood_fill s start_x start_y =
     (case flood_loop s [(start_x, start_y)] {} [] of None \<Rightarrow> None
      | Some (area, visited) \<Rightarrow>
          (case any_enemy_in s visited (enemies s) of None \<Rightarrow> None
           | Some has_enemy \<Rightarrow> Some (area, has_enemy)))"

text \<open>
  The body of the scan loop of \<open>claim_territory\<close>. Beside the game it threads the list of
  the \<open>flood_fill\<close> results obtained so far, which the code does not keep: it is there
  only so that properties of the pass as a whole can be stated.
\<close>

definition claim_cell ::
  "int \<times> int \<Rightarrow> xonix \<times> ((int \<times> int) list \<times> bool) list
     \<Rightarrow> (xonix \<times> ((int \<times> int) list \<times> bool) list) option" where
  "claim_cell p sl =
     (case sl of (s, fills) \<Rightarrow>
        (case grid_read (grid s) (fst p) (snd p) of None \<Rightarrow> None
         | Some c \<Rightarrow>
             if c = EMPTY then
               (case flood_fill s (fst p) (snd p) of None \<Rightarrow> None
                | Some (area, has_enemy) \<Rightarrow>
                    if \<not> has_enemy \<and> area \<noteq> [] then
                      (case set_cells CLAIMED area (grid s) of None \<Rightarrow> None
                       | Some g \<Rightarrow> Some (s\<lparr>grid := g\<rparr>, fills @ [(area, has_enemy)]))
                    else Some (s, fills @ [(area, has_enemy)]))
             else Some (s, fills)))"

definition claim_territory_fills ::
  "xonix \<Rightarrow> (xonix \<times> ((int \<times> int) list \<times> bool) list) option" where
  "claim_territory_fills s =
     (case set_cells BORDER (trail s) (grid s) of None \<Rightarrow> None
      | Some g \<Rightarrow> for_each (interior s) claim_cell (s\<lparr>grid := g\<rparr>, []))"

definition claim_territory :: "xonix \<Rightarrow> xonix option" where
  "claim_territory s = map_option fst (claim_territory_fills s)"

section \<open>TrailStateMachine\<close>

text \<open>\<open>_process_movement\<close>; the \<open>if\<close>/\<open>elif\<close> chain is kept in the order of the source.\<close>

definition process_movement :: "int \<Rightarrow> int \<Rightarrow> xonix \<Rightarrow> xonix option" where
  "process_movement new_x new_y s =
     (case get_cell_state s new_x new_y of None \<Rightarrow> None
      | Some cell_state \<Rightarrow>
          if \<not> drawing s \<and> cell_state = EMPTY then
            Some (s\<lparr>drawing := True, trail := [(new_x, new_y)],
                    player_x := new_x, player_y := new_y\<rparr>)
          else if drawing s \<and> (new_x, new_y) \<in> set (trail s) then
            Some (s\<lparr>game_over := True, message := ''Hit your own trail!''\<rparr>)
          else
            (case (if drawing s then is_on_border_or_claimed s new_x new_y else Some False) of
               None \<Rightarrow> None
             | Some True \<Rightarrow>
                 (case claim_territory (s\<lparr>drawing := False\<rparr>) of None \<Rightarrow> None
                  | Some s1 \<Rightarrow>
                      let s2 = s1\<lparr>trail := [], player_x := new_x, player_y := new_y\<rparr>
                      in (case calculate_percentage s2 of None \<Rightarrow> None
                          | Some pct \<Rightarrow>
                              let s3 = s2\<lparr>score := pct\<rparr>
                              in if score s3 \<ge> TARGET_PERCENTAGE s3
                                 then Some (s3\<lparr>game_won := True, message := ''Victory!''\<rparr>)
                                 else Some s3))
             | Some False \<Rightarrow>
                 if drawing s \<and> cell_state = EMPTY then
                   Some (s\<lparr>trail := trail s @ [(new_x, new_y)],
                           player_x := new_x, player_y := new_y\<rparr>)
                 else if \<not> drawing s then
                   Some (s\<lparr>player_x := new_x, player_y := new_y\<rparr>)
                 else Some s))"

text \<open>
  \<open>handle_movement\<close>; \<open>keys\<close> is the result of \<open>pygame.key.get_pressed()\<close>, which tells for
  every key whether it is held down.
\<close>

definition handle_movement :: "(key \<Rightarrow> bool) \<Rightarrow> xonix \<Rightarrow> xonix option" where
  "handle_movement keys s =
     (if game_over s \<or> game_won s then Some s
      else
        let (new_x, new_y, moved) =
              (if keys K_UP then (player_x s, player_y s - 1, True)
               else if keys K_DOWN then (player_x s, player_y s + 1, True)
               else if keys K_LEFT then (player_x s - 1, player_y s, True)
               else if keys K_RIGHT then (player_x s + 1, player_y s, True)
               else (player_x s, player_y s, False))
        in if moved \<and> in_board s new_x new_y then process_movement new_x new_y s
           else Some s)"

text \<open>
  \<open>reset_game_state\<close>. Its argument \<open>draws\<close> holds, for every enemy created, what the four
  calls of \<open>random\<close> returned: the two \<open>randint\<close> results and the two \<open>choice\<close> results.
\<close>

definition reset_game_state :: "(int \<times> int \<times> int \<times> int) list \<Rightarrow> xonix \<Rightarrow> xonix option" where
  "reset_game_state draws s =
     (let g0 = replicate (nat (GRID_HEIGHT s)) (replicate (nat (GRID_WIDTH s)) EMPTY)
      in case for_each [0..GRID_WIDTH s - 1]
                (\<lambda>x g. case grid_write g x 0 BORDER of None \<Rightarrow> None
                       | Some g' \<Rightarrow> grid_write g' x (GRID_HEIGHT s - 1) BORDER) g0 of
           None \<Rightarrow> None
         | Some g1 \<Rightarrow>
             (case for_each [0..GRID_HEIGHT s - 1]
                     (\<lambda>y g. case grid_write g 0 y BORDER of None \<Rightarrow> None
                            | Some g' \<Rightarrow> grid_write g' (GRID_WIDTH s - 1) y BORDER) g1 of
                None \<Rightarrow> None
              | Some g2 \<Rightarrow>
                  Some (s\<lparr>grid := g2,
                          player_x := GRID_WIDTH s div 2, player_y := 0,
                          enemies := map (\<lambda>(rx, ry, vx, vy).
                                        \<lparr>enemy_x = rx * GRID_SIZE s, enemy_y = ry * GRID_SIZE s,
                                         enemy_vx = vx, enemy_vy = vy, enemy_radius = 8\<rparr>) draws,
                          trail := [], drawing := False, score := 0,
                          game_over := False, game_won := False, message := []\<rparr>)))"

text \<open>What the calls of \<open>random\<close> in \<open>reset_game_state\<close> can return.\<close>

definition possible_draws :: "xonix \<Rightarrow> (int \<times> int \<times> int \<times> int) list \<Rightarrow> bool" where
  "possible_draws s draws \<longleftrightarrow>
     int (length draws) = max 0 (INITIAL_ENEMIES s) \<and>
     list_all (\<lambda>(rx, ry, vx, vy).
        GRID_WIDTH s div 4 \<le> rx \<and> rx \<le> 3 * GRID_WIDTH s div 4 \<and>
        GRID_HEIGHT s div 4 \<le> ry \<and> ry \<le> 3 * GRID_HEIGHT s div 4 \<and>
        vx \<in> set [-2, 2] \<and> vy \<in> set [-2, 2]) draws"

text \<open>\<open>handle_input\<close>; \<open>draws\<close> is what a restart would draw.\<close>

definition handle_input :: "(int \<times> int \<times> int \<times> int) list \<Rightarrow> event \<Rightarrow> xonix \<Rightarrow> xonix option" where
  "handle_input draws ev s =
     (case ev of
        QUIT \<Rightarrow> Some (s\<lparr>running := False\<rparr>)
      | KEYDOWN k \<Rightarrow>
          if k = K_ESCAPE then Some (s\<lparr>running := False\<rparr>)
          else if (game_over s \<or> game_won s) \<and> k = K_SPACE then reset_game_state draws s
          else Some s
      | OTHER_EVENT \<Rightarrow> Some s)"

section \<open>EnemySimulator\<close>

text \<open>
  The first part of the body of the loop of \<open>update_enemies\<close>: the enemy advances, then
  bounces per axis. \<open>ex, ey\<close> are computed once, after the advance; \<open>or\<close> evaluates its
  operands from the left and reads the grid only when the edge tests fail.
\<close>

definition cell_blocks :: "xonix \<Rightarrow> int \<Rightarrow> int \<Rightarrow> bool option" where
  "cell_blocks s ex ey =
     (if in_board s ex ey
      then (case grid_read (grid s) ex ey of None \<Rightarrow> None
            | Some c \<Rightarrow> Some (c \<in> set [BORDER, CLAIMED]))
      else Some False)"

definition bounce :: "xonix \<Rightarrow> enemy \<Rightarrow> enemy option" where
  "bounce s e0 =
     (let e1 = e0\<lparr>enemy_x := enemy_x e0 + enemy_vx e0, enemy_y := enemy_y e0 + enemy_vy e0\<rparr>
      in case quantize s e1 of None \<Rightarrow> None
         | Some (ex, ey) \<Rightarrow>
            (case (if enemy_x e1 \<le> enemy_radius e1
                      \<or> enemy_x e1 \<ge> WINDOW_WIDTH s - enemy_radius e1 then Some True
                   else cell_blocks s ex ey) of
               None \<Rightarrow> None
             | Some bx \<Rightarrow>
                let e2 = (if bx then e1\<lparr>enemy_vx := - enemy_vx e1,
                                        enemy_x := enemy_x e1 + (- enemy_vx e1) * 2\<rparr>
                          else e1)
                in (case (if enemy_y e2 \<le> enemy_radius e2
                             \<or> enemy_y e2 \<ge> GRID_HEIGHT s * GRID_SIZE s - enemy_radius e2
                          then Some True
                          else cell_blocks s ex ey) of
                      None \<Rightarrow> None
                    | Some by \<Rightarrow>
                        Some (if by then e2\<lparr>enemy_vy := - enemy_vy e2,
                                            enemy_y := enemy_y e2 + (- enemy_vy e2) * 2\<rparr>
                              else e2))))"

definition enemy_hits_trail :: "xonix \<Rightarrow> enemy \<Rightarrow> bool" where
  "enemy_hits_trail s e \<longleftrightarrow>
     list_ex (\<lambda>(tx, ty).
        (enemy_x e - tx * GRID_SIZE s)\<^sup>2 + (enemy_y e - ty * GRID_SIZE s)\<^sup>2
          < (enemy_radius e + GRID_SIZE s div 2)\<^sup>2) (trail s)"

definition enemy_hits_player :: "xonix \<Rightarrow> enemy \<Rightarrow> bool" where
  "enemy_hits_player s e \<longleftrightarrow>
     (enemy_x e - player_x s * GRID_SIZE s)\<^sup>2 + (enemy_y e - player_y s * GRID_SIZE s)\<^sup>2
       < (enemy_radius e + GRID_SIZE s div 2)\<^sup>2"

text \<open>
  The loop of \<open>update_enemies\<close> over the enemies still to be visited; \<open>moved\<close> are the
  enemies already updated. A hit on the trail leaves the loop (\<open>break\<close>) and the remaining
  enemies as they are.
\<close>

fun update_enemies_loop :: "enemy list \<Rightarrow> enemy list \<Rightarrow> xonix \<Rightarrow> xonix option" where
  "update_enemies_loop moved [] s = Some (s\<lparr>enemies := moved\<rparr>)"
| "update_enemies_loop moved (e # es) s =
     (case bounce s e of None \<Rightarrow> None
      | Some e' \<Rightarrow>
          if drawing s \<and> enemy_hits_trail s e' then
            Some (s\<lparr>enemies := moved @ e' # es, game_over := True,
                    message := ''Enemy hit your trail!''\<rparr>)
          else if drawing s \<and> enemy_hits_player s e' then
            update_enemies_loop (moved @ [e']) es
              (s\<lparr>game_over := True, message := ''Enemy hit you!''\<rparr>)
          else update_enemies_loop (moved @ [e']) es s)"

definition update_enemies :: "xonix \<Rightarrow> xonix option" where
  "update_enemies s = update_enemies_loop [] (enemies s) s"

section \<open>The main loop\<close>

text \<open>
  One iteration of the \<open>while self.running\<close> loop of \<open>run\<close>, without the drawing: the
  pending events, each with the draws a restart would make, then the movement, then the
  enemies unless the game has ended.
\<close>

definition frame ::
  "(event \<times> (int \<times> int \<times> int \<times> int) list) list \<Rightarrow> (key \<Rightarrow> bool) \<Rightarrow> xonix \<Rightarrow> xonix option" where
  "frame evs keys s =
     (case for_each evs (\<lambda>(ev, draws). handle_input draws ev) s of None \<Rightarrow> None
      | Some s1 \<Rightarrow>
          (case handle_movement keys s1 of None \<Rightarrow> None
           | Some s2 \<Rightarrow>
               if \<not> game_over s2 \<and> \<not> game_won s2 then update_enemies s2 else Some s2))"

text \<open>
  The states \<open>run\<close> can be in at the head of its loop, starting from the object \<open>s0\<close>:
  after the first \<open>reset_game_state\<close>, and after every further iteration.
\<close>

inductive reachable :: "xonix \<Rightarrow> xonix \<Rightarrow> bool" for s0 :: xonix where
  reachable_reset:
    "possible_draws s0 draws \<Longrightarrow> reset_game_state draws s0 = Some s \<Longrightarrow> reachable s0 s"
| reachable_frame:
    "reachable s0 s \<Longrightarrow> running s \<Longrightarrow> list_all (\<lambda>(ev, draws). possible_draws s draws) evs
       \<Longrightarrow> frame evs keys s = Some s' \<Longrightarrow> reachable s0 s'"

section \<open>Notions used to state the properties\<close>

text \<open>The cell a coordinate pair inside the board holds.\<close>

definition cell_at :: "xonix \<Rightarrow> int \<times> int \<Rightarrow> cell option" where
  "cell_at s p = (if in_board s (fst p) (snd p) then grid_read (grid s) (fst p) (snd p) else None)"

definition empty_at :: "xonix \<Rightarrow> int \<times> int \<Rightarrow> bool" where
  "empty_at s p \<longleftrightarrow> cell_at s p = Some EMPTY"

text \<open>Two cells are 4-neighbours.\<close>

definition adjacent :: "int \<times> int \<Rightarrow> int \<times> int \<Rightarrow> bool" where
  "adjacent p q \<longleftrightarrow> \<bar>fst p - fst q\<bar> + \<bar>snd p - snd q\<bar> = 1"

text \<open>
  The maximal 4-connected set of \<open>EMPTY\<close> cells that contains \<open>p\<close>; it is empty when \<open>p\<close>
  itself is not an \<open>EMPTY\<close> cell of the board.
\<close>

inductive_set region :: "xonix \<Rightarrow> int \<times> int \<Rightarrow> (int \<times> int) set" for s :: xonix and p :: "int \<times> int" where
  region_start: "empty_at s p \<Longrightarrow> p \<in> region s p"
| region_step: "q \<in> region s p \<Longrightarrow> adjacent q r \<Longrightarrow> empty_at s r \<Longrightarrow> r \<in> region s p"

text \<open>An enemy's quantized position lies in a set of cells.\<close>

definition enemy_in :: "xonix \<Rightarrow> (int \<times> int) set \<Rightarrow> bool" where
  "enemy_in s A \<longleftrightarrow>
     list_ex (\<lambda>e. (enemy_x e div GRID_SIZE s, enemy_y e div GRID_SIZE s) \<in> A) (enemies s)"

text \<open>The grid has \<open>GRID_HEIGHT\<close> rows of \<open>GRID_WIDTH\<close> cells.\<close>

definition grid_shape :: "xonix \<Rightarrow> bool" where
  "grid_shape s \<longleftrightarrow>
     length (grid s) = nat (GRID_HEIGHT s) \<and>
     list_all (\<lambda>row. length row = nat (GRID_WIDTH s)) (grid s)"

text \<open>The cells of the outer ring, which \<open>reset_game_state\<close> sets to \<open>BORDER\<close>.\<close>

definition ring :: "xonix \<Rightarrow> (int \<times> int) list" where
  "ring s =
     map (\<lambda>x. (x, 0)) [0..GRID_WIDTH s - 1] @ map (\<lambda>x. (x, GRID_HEIGHT s - 1)) [0..GRID_WIDTH s - 1] @
     map (\<lambda>y. (0, y)) [0..GRID_HEIGHT s - 1] @ map (\<lambda>y. (GRID_WIDTH s - 1, y)) [0..GRID_HEIGHT s - 1]"

text \<open>
  A well-formed game: the cell size is not zero, the grid has its shape, the outer ring is
  \<open>BORDER\<close>, and the trail lies on the board.
\<close>

definition well_formed :: "xonix \<Rightarrow> bool" where
  "well_formed s \<longleftrightarrow>
     GRID_SIZE s \<noteq> 0 \<and> grid_shape s \<and>
     list_all (\<lambda>p. cell_at s p = Some BORDER) (ring s) \<and>
     list_all (\<lambda>(x, y). in_board s x y) (trail s)"

text \<open>
  The destination of the single-cell move that the held keys request, \<open>UP\<close> before \<open>DOWN\<close>
  before \<open>LEFT\<close> before \<open>RIGHT\<close>; \<open>None\<close> when none of the four is held.
\<close>

definition requested :: "(key \<Rightarrow> bool) \<Rightarrow> xonix \<Rightarrow> (int \<times> int) option" where
  "requested keys s =
     (if keys K_UP then Some (player_x s, player_y s - 1)
      else if keys K_DOWN then Some (player_x s, player_y s + 1)
      else if keys K_LEFT then Some (player_x s - 1, player_y s)
      else if keys K_RIGHT then Some (player_x s + 1, player_y s)
      else None)"

text \<open>The session is in one of its terminal states, \<open>Lost\<close> or \<open>Won\<close>.\<close>

definition terminal :: "xonix \<Rightarrow> bool" where
  "terminal s \<longleftrightarrow> game_over s \<or> game_won s"

text \<open>The machine is in the state \<open>Drawing\<close>: a trail is being drawn and the session is active.\<close>

definition Drawing :: "xonix \<Rightarrow> bool" where
  "Drawing s \<longleftrightarrow> drawing s \<and> \<not> terminal s"

section \<open>Example states\<close>

text \<open>
  A board of six by five cells during a drawing: the player has walked from the top border
  down the fourth column, one enemy is in the left part of the interior.
\<close>

definition small_game :: xonix where
  "small_game = XonixGame\<lparr>GRID_WIDTH := 6, GRID_HEIGHT := 5,
     grid := [[BORDER, BORDER, BORDER, BORDER, BORDER, BORDER],
              [BORDER, EMPTY, EMPTY, EMPTY, EMPTY, BORDER],
              [BORDER, EMPTY, EMPTY, EMPTY, EMPTY, BORDER],
              [BORDER, EMPTY, EMPTY, EMPTY, EMPTY, BORDER],
              [BORDER, BORDER, BORDER, BORDER, BORDER, BORDER]],
     enemies := [\<lparr>enemy_x = 15, enemy_y = 25, enemy_vx = 2, enemy_vy = 2, enemy_radius = 8\<rparr>],
     trail := [(3, 1), (3, 2), (3, 3)], drawing := True, player_x := 3, player_y := 3\<rparr>"



text \<open>
  The invariant of the \<open>while stack\<close> loop of a flood fill started at \<open>start\<close>: the area
  lists the visited cells once each, they belong to the region of \<open>start\<close>, every stacked
  cell is \<open>start\<close> or a neighbour of a visited cell, and every \<open>EMPTY\<close> neighbour of a visited
  cell is visited or stacked.
\<close>

definition flood_inv ::
  "xonix \<Rightarrow> int \<times> int \<Rightarrow> (int \<times> int) list \<Rightarrow> (int \<times> int) set \<Rightarrow> (int \<times> int) list \<Rightarrow> bool" where
  "flood_inv s start stack visited area \<longleftrightarrow>
     set area = visited \<and> distinct area \<and> visited \<subseteq> region s start \<and>
     (\<forall>q\<in>set stack. q = start \<or> (\<exists>p\<in>visited. adjacent p q)) \<and>
     (\<forall>p\<in>visited. \<forall>q. adjacent p q \<and> empty_at s q \<longrightarrow> q \<in> visited \<or> q \<in> set stack) \<and>
     (empty_at s start \<longrightarrow> start \<in> visited \<or> start \<in> set stack)"

text \<open>The number of the flood-fill runs whose area contains the cell \<open>p\<close>.\<close>

definition visits :: "((int \<times> int) list \<times> bool) list \<Rightarrow> int \<times> int \<Rightarrow> nat" where
  "visits fills p = length (filter (\<lambda>f. p \<in> set (fst f)) fills)"

text \<open>
  The invariant of the scan loop of \<open>claim_territory\<close>. \<open>s1\<close> is the game after the trail
  has been marked, \<open>seen\<close> are the interior cells the scan has passed. A cell is \<open>CLAIMED\<close>
  by now exactly when it was \<open>EMPTY\<close> in \<open>s1\<close>, its region holds no enemy and the scan has
  passed a cell of that region; every other cell is as in \<open>s1\<close>. Every flood fill made so
  far found a whole region, each cell of it once, and reports whether it holds an enemy.
  A cell of a region with an enemy has been visited once for every cell of the region that
  the scan has passed, a cell of a region without enemy once if the scan has reached the
  region, and no other cell has been visited.
\<close>

definition scan_inv ::
  "xonix \<Rightarrow> (int \<times> int) list \<Rightarrow> xonix \<times> ((int \<times> int) list \<times> bool) list \<Rightarrow> bool" where
  "scan_inv s1 seen tf \<longleftrightarrow>
     (case tf of (t, fills) \<Rightarrow>
        (\<exists>g. t = s1\<lparr>grid := g\<rparr>) \<and> grid_shape t \<and>
        (\<forall>p. cell_at t p =
           (if empty_at s1 p \<and> \<not> enemy_in s1 (region s1 p) \<and> region s1 p \<inter> set seen \<noteq> {}
            then Some CLAIMED else cell_at s1 p)) \<and>
        (\<forall>f\<in>set fills. distinct (fst f) \<and> snd f = enemy_in s1 (set (fst f)) \<and>
           (\<forall>p\<in>set (fst f). set (fst f) = region s1 p)) \<and>
        (\<forall>p. visits fills p =
           (if empty_at s1 p
            then (if enemy_in s1 (region s1 p)
                  then length (filter (\<lambda>c. c \<in> region s1 p) seen)
                  else (if region s1 p \<inter> set seen \<noteq> {} then 1 else 0))
            else 0)))"

text \<open>
  The number of the flood-fill runs of one claiming pass on \<open>s\<close> that visit the cell \<open>p\<close>
  (none when the pass raises).
\<close>

definition pass_visits :: "xonix \<Rightarrow> int \<times> int \<Rightarrow> nat" where
  "pass_visits s p = (case claim_territory_fills s of None \<Rightarrow> 0 | Some tf \<Rightarrow> visits (snd tf) p)"

text \<open>
  The board of the class constants, seventy by fifty cells, as \<open>reset_game_state\<close> builds
  it, after the player has stepped from the top border down to \<open>(35, 1)\<close>; one of the
  three enemies has moved into the upper left corner of the interior.
\<close>

definition trapped_game :: xonix where
  "trapped_game = XonixGame\<lparr>
     grid := replicate 70 BORDER
             # replicate 48 (BORDER # replicate 68 EMPTY @ [BORDER])
             @ [replicate 70 BORDER],
     enemies := [\<lparr>enemy_x = 14, enemy_y = 14, enemy_vx = 2, enemy_vy = 2, enemy_radius = 8\<rparr>,
                 \<lparr>enemy_x = 300, enemy_y = 200, enemy_vx = -2, enemy_vy = 2, enemy_radius = 8\<rparr>,
                 \<lparr>enemy_x = 420, enemy_y = 310, enemy_vx = 2, enemy_vy = -2, enemy_radius = 8\<rparr>],
     trail := [(35, 1)], drawing := True, player_x := 35, player_y := 1\<rparr>"

text \<open>
  The constants are sane: the cell size is not zero and the board has at least one row
  and one column.
\<close>

definition sane_constants :: "xonix \<Rightarrow> bool" where
  "sane_constants s \<longleftrightarrow> GRID_SIZE s \<noteq> 0 \<and> 1 \<le> GRID_WIDTH s \<and> 1 \<le> GRID_HEIGHT s"

text \<open>
  What holds in every state of a run: the game is well-formed, no grid cell is \<open>TRAIL\<close>,
  and while the drawing flag is set every trail cell is \<open>EMPTY\<close> in the grid.
\<close>

definition game_inv :: "xonix \<Rightarrow> bool" where
  "game_inv s \<longleftrightarrow>
     well_formed s \<and> (\<forall>p. cell_at s p \<noteq> Some TRAIL) \<and>
     (drawing s \<longrightarrow> (\<forall>p\<in>set (trail s). cell_at s p = Some EMPTY))"

text \<open>The cell counts for the percentage: it is \<open>CLAIMED\<close> or \<open>BORDER\<close>.\<close>

definition solid_at :: "xonix \<Rightarrow> int \<times> int \<Rightarrow> bool" where
  "solid_at s p \<longleftrightarrow> cell_at s p = Some CLAIMED \<or> cell_at s p = Some BORDER"

text \<open>
  A part of one session: iterations of the main loop in which no \<open>SPACE\<close> key event
  arrives, so that the game is not reset.
\<close>

inductive session :: "xonix \<Rightarrow> xonix \<Rightarrow> bool" for s :: xonix where
  session_start: "session s s"
| session_frame:
    "session s t \<Longrightarrow> running t \<Longrightarrow> list_all (\<lambda>(ev, draws). ev \<noteq> KEYDOWN K_SPACE) evs
       \<Longrightarrow> frame evs keys t = Some u \<Longrightarrow> session s u"

text \<open>Two games have the same class constants.\<close>

definition same_constants :: "xonix \<Rightarrow> xonix \<Rightarrow> bool" where
  "same_constants a b \<longleftrightarrow>
     GRID_SIZE a = GRID_SIZE b \<and> GRID_WIDTH a = GRID_WIDTH b \<and> GRID_HEIGHT a = GRID_HEIGHT b \<and>
     TARGET_PERCENTAGE a = TARGET_PERCENTAGE b \<and> INITIAL_ENEMIES a = INITIAL_ENEMIES b"

(* END OF DEFINITIONS *)

section \<open>Reading and writing the grid\<close>

lemma py_index_nat: "0 \<le> i \<Longrightarrow> nat i < length xs \<Longrightarrow> py_index xs i = Some (nat i)"
  by (auto simp: py_index_def Let_def)

lemma grid_shape_row:
  assumes "grid_shape s" "0 \<le> y" "y < GRID_HEIGHT s"
  shows "nat y < length (grid s)" "length (grid s ! nat y) = nat (GRID_WIDTH s)"
proof -
  show a: "nat y < length (grid s)" using assms by (simp add: grid_shape_def)
  have "\<forall>row\<in>set (grid s). length row = nat (GRID_WIDTH s)"
    using assms(1) by (simp add: grid_shape_def list_all_iff)
  with a show "length (grid s ! nat y) = nat (GRID_WIDTH s)" by simp
qed

lemma grid_read_in_board:
  assumes "grid_shape s" "in_board s x y"
  shows "grid_read (grid s) x y = Some (grid s ! nat y ! nat x)"
proof -
  have y: "0 \<le> y" "y < GRID_HEIGHT s" and x: "0 \<le> x" "x < GRID_WIDTH s"
    using assms(2) by (simp_all add: in_board_def)
  have r: "py_index (grid s) y = Some (nat y)"
    using grid_shape_row(1)[OF assms(1) y] y by (simp add: py_index_nat)
  have c: "py_index (grid s ! nat y) x = Some (nat x)"
    using grid_shape_row(2)[OF assms(1) y] x by (simp add: py_index_nat)
  show ?thesis by (simp add: grid_read_def r c)
qed

lemma cell_at_in_board:
  "grid_shape s \<Longrightarrow> in_board s (fst p) (snd p)
     \<Longrightarrow> cell_at s p = Some (grid s ! nat (snd p) ! nat (fst p))"
  by (simp add: cell_at_def grid_read_in_board)

lemma cell_at_outside: "\<not> in_board s (fst p) (snd p) \<Longrightarrow> cell_at s p = None"
  by (simp add: cell_at_def)

lemma small_game_shape: "grid_shape small_game"
  by code_simp

section \<open>The border sentinel of the cell-state query\<close>

text \<open>
  Claim C5. For every coordinate outside the grid bounds (\<open>x < 0\<close>, \<open>x \<ge> width\<close>, \<open>y < 0\<close> or
  \<open>y \<ge> height\<close>) \<open>get_cell_state\<close> returns \<open>BORDER\<close> without reading the grid, so the read
  cannot fail there; for every coordinate inside the bounds of a grid of the configured
  shape it returns the stored cell \<open>grid[y][x]\<close>.
\<close>

theorem get_cell_state_sentinel:
  "(x < 0 \<or> x \<ge> GRID_WIDTH s \<or> y < 0 \<or> y \<ge> GRID_HEIGHT s
      \<longrightarrow> get_cell_state s x y = Some BORDER) \<and>
   (grid_shape s \<and> 0 \<le> x \<and> x < GRID_WIDTH s \<and> 0 \<le> y \<and> y < GRID_HEIGHT s
      \<longrightarrow> get_cell_state s x y = Some (grid s ! nat y ! nat x))"
proof (intro conjI impI)
  assume "x < 0 \<or> x \<ge> GRID_WIDTH s \<or> y < 0 \<or> y \<ge> GRID_HEIGHT s"
  then have "\<not> in_board s x y" by (auto simp: in_board_def)
  then show "get_cell_state s x y = Some BORDER" by (simp add: get_cell_state_def)
next
  assume a: "grid_shape s \<and> 0 \<le> x \<and> x < GRID_WIDTH s \<and> 0 \<le> y \<and> y < GRID_HEIGHT s"
  then have "in_board s x y" by (simp add: in_board_def)
  with a show "get_cell_state s x y = Some (grid s ! nat y ! nat x)"
    by (simp add: get_cell_state_def grid_read_in_board)
qed

theorem get_cell_state_sentinel_witness:
  "get_cell_state small_game (-1) 2 = Some BORDER \<and> get_cell_state small_game 6 2 = Some BORDER \<and>
   grid_shape small_game \<and> get_cell_state small_game 2 2 = Some EMPTY \<and>
   get_cell_state small_game 5 2 = Some BORDER"
proof -
  have "get_cell_state small_game (-1) 2 = Some BORDER"
    using get_cell_state_sentinel [of "-1" small_game 2] by simp
  moreover have "get_cell_state small_game 6 2 = Some BORDER"
    using get_cell_state_sentinel [of 6 small_game 2] by (simp add: small_game_def)
  moreover have "get_cell_state small_game 2 2 = Some EMPTY"
    using get_cell_state_sentinel [of 2 small_game 2] small_game_shape
    by (simp add: small_game_def XonixGame_def)
  moreover have "get_cell_state small_game 5 2 = Some BORDER"
    using get_cell_state_sentinel [of 5 small_game 2] small_game_shape
    by (simp add: small_game_def XonixGame_def)
  ultimately show ?thesis using small_game_shape by simp
qed

section \<open>Moves that are ignored, and the self-intersection\<close>

lemma handle_movement_requested:
  "handle_movement keys s =
     (if terminal s then Some s
      else case requested keys s of None \<Rightarrow> Some s
           | Some (nx, ny) \<Rightarrow> if in_board s nx ny then process_movement nx ny s else Some s)"
  by (simp add: handle_movement_def requested_def terminal_def)

text \<open>
  Claim C8. A requested move whose destination is outside the board, and any move issued
  while the session is \<open>Lost\<close> or \<open>Won\<close>, is silently ignored: \<open>handle_movement\<close> returns
  normally and the whole game (player position, trail, drawing flag, grid, session state) is
  as before.
\<close>

theorem handle_movement_ignored:
  assumes "terminal s \<or> (\<exists>nx ny. requested keys s = Some (nx, ny) \<and> \<not> in_board s nx ny)"
  shows "handle_movement keys s = Some s"
  using assms by (auto simp: handle_movement_requested)

lemma small_game_requested_right:
  "requested (\<lambda>k. k = K_RIGHT) (small_game\<lparr>player_x := 5\<rparr>) = Some (6, 3)"
  by (simp add: requested_def small_game_def)

theorem handle_movement_ignored_witness:
  "handle_movement (\<lambda>k. k = K_RIGHT) (small_game\<lparr>player_x := 5\<rparr>)
     = Some (small_game\<lparr>player_x := 5\<rparr>) \<and>
   handle_movement (\<lambda>k. k = K_UP) (small_game\<lparr>game_over := True\<rparr>)
     = Some (small_game\<lparr>game_over := True\<rparr>)"
proof -
  have a: "\<not> in_board (small_game\<lparr>player_x := 5\<rparr>) 6 3"
    by (simp add: in_board_def small_game_def)
  have b: "terminal (small_game\<lparr>game_over := True\<rparr>)" by (simp add: terminal_def)
  show ?thesis
    using handle_movement_ignored [of "small_game\<lparr>player_x := 5\<rparr>" "\<lambda>k. k = K_RIGHT"]
      handle_movement_ignored [of "small_game\<lparr>game_over := True\<rparr>" "\<lambda>k. k = K_UP"]
      a b small_game_requested_right
    by blast
qed

text \<open>
  Claim C4. In the state \<open>Drawing\<close>, a requested move whose destination lies on the board
  and is already in the trail makes the session \<open>Lost\<close> with the reason
  \<open>Hit your own trail!\<close>; nothing else changes: the player position, the trail and every
  grid cell are as before.
\<close>

theorem self_intersection_loses:
  assumes "Drawing s" "grid_shape s"
    and "requested keys s = Some (nx, ny)" "in_board s nx ny" "(nx, ny) \<in> set (trail s)"
  shows "handle_movement keys s = Some (s\<lparr>game_over := True, message := ''Hit your own trail!''\<rparr>)"
proof -
  obtain c where c: "get_cell_state s nx ny = Some c"
    using assms(2,4) by (simp add: get_cell_state_def grid_read_in_board)
  have "process_movement nx ny s = Some (s\<lparr>game_over := True, message := ''Hit your own trail!''\<rparr>)"
    using assms(1,5) c by (simp add: process_movement_def Drawing_def)
  then show ?thesis
    using assms(1,3,4) by (simp add: handle_movement_requested Drawing_def)
qed

theorem self_intersection_loses_witness:
  "Drawing small_game \<and> grid_shape small_game \<and> requested (\<lambda>k. k = K_UP) small_game = Some (3, 2)
   \<and> in_board small_game 3 2 \<and> (3, 2) \<in> set (trail small_game)
   \<and> handle_movement (\<lambda>k. k = K_UP) small_game
       = Some (small_game\<lparr>game_over := True, message := ''Hit your own trail!''\<rparr>)"
proof -
  have a: "Drawing small_game" by (simp add: Drawing_def terminal_def small_game_def XonixGame_def)
  have b: "requested (\<lambda>k. k = K_UP) small_game = Some (3, 2)"
    by (simp add: requested_def small_game_def)
  have c: "in_board small_game 3 2" by (simp add: in_board_def small_game_def)
  have d: "(3, 2) \<in> set (trail small_game)" by (simp add: small_game_def)
  show ?thesis
    using self_intersection_loses [OF a small_game_shape b c d] a b c d small_game_shape by simp
qed

section \<open>The bounce of an enemy\<close>




section \<open>The claimed percentage\<close>

lemma set_interior:
  "set (interior s) = {p. 1 \<le> fst p \<and> fst p \<le> GRID_WIDTH s - 2 \<and> 1 \<le> snd p \<and> snd p \<le> GRID_HEIGHT s - 2}"
  by (auto simp: interior_def)

lemma interior_in_board: "p \<in> set (interior s) \<Longrightarrow> in_board s (fst p) (snd p)"
  by (auto simp: set_interior in_board_def)

lemma ring_iff:
  "in_board s (fst p) (snd p) \<Longrightarrow>
     p \<in> set (ring s) \<longleftrightarrow>
       (fst p = 0 \<or> fst p = GRID_WIDTH s - 1 \<or> snd p = 0 \<or> snd p = GRID_HEIGHT s - 1)"
  by (cases p) (auto simp: ring_def in_board_def)

lemma interior_ring: "set (interior s) = {p. in_board s (fst p) (snd p)} - set (ring s)"
proof (intro set_eqI iffI)
  fix p assume "p \<in> set (interior s)"
  then have i: "1 \<le> fst p" "fst p \<le> GRID_WIDTH s - 2" "1 \<le> snd p" "snd p \<le> GRID_HEIGHT s - 2"
    by (simp_all add: set_interior)
  then have b: "in_board s (fst p) (snd p)" by (simp add: in_board_def)
  with i show "p \<in> {p. in_board s (fst p) (snd p)} - set (ring s)" by (simp add: ring_iff)
next
  fix p assume "p \<in> {p. in_board s (fst p) (snd p)} - set (ring s)"
  then have b: "in_board s (fst p) (snd p)" and r: "p \<notin> set (ring s)" by simp_all
  from r b have "\<not> (fst p = 0 \<or> fst p = GRID_WIDTH s - 1 \<or> snd p = 0 \<or> snd p = GRID_HEIGHT s - 1)"
    by (simp add: ring_iff)
  with b show "p \<in> set (interior s)" by (auto simp: set_interior in_board_def)
qed

lemma interior_product:
  "interior s = map prod.swap (List.product [1..GRID_HEIGHT s - 2] [1..GRID_WIDTH s - 2])"
  by (simp add: interior_def product_concat_map map_concat comp_def)

lemma distinct_interior: "distinct (interior s)"
  by (simp add: interior_product distinct_map distinct_product)






section \<open>The flood fill computes the region of its start cell\<close>

lemma empty_at_iff:
  "empty_at s (x, y) \<longleftrightarrow> in_board s x y \<and> grid_read (grid s) x y = Some EMPTY"
  by (simp add: empty_at_def cell_at_def)

lemma adjacent_cases:
  "adjacent (x, y) q \<longleftrightarrow> q = (x - 1, y) \<or> q = (x + 1, y) \<or> q = (x, y - 1) \<or> q = (x, y + 1)"
  by (cases q) (auto simp: adjacent_def)

lemma adjacent_sym: "adjacent p q \<Longrightarrow> adjacent q p"
  by (simp add: adjacent_def abs_minus_commute)

lemma region_empty_at: "q \<in> region s p \<Longrightarrow> empty_at s q"
  by (induction rule: region.induct) simp_all

lemma region_start_empty: "q \<in> region s p \<Longrightarrow> empty_at s p"
  by (induction rule: region.induct) simp_all

lemma flood_inv_skip:
  assumes "flood_inv s start (c # stack) visited area" "c \<in> visited \<or> \<not> empty_at s c"
  shows "flood_inv s start stack visited area"
  using assms unfolding flood_inv_def by (auto 4 3 dest: region_empty_at)

lemma flood_inv_visit:
  assumes inv: "flood_inv s start ((x, y) # stack) visited area"
    and new: "(x, y) \<notin> visited" and emp: "empty_at s (x, y)"
  shows "flood_inv s start ((x - 1, y) # (x + 1, y) # (x, y - 1) # (x, y + 1) # stack)
           (insert (x, y) visited) (area @ [(x, y)])"
proof -
  have a: "set area = visited" "distinct area" "visited \<subseteq> region s start"
    and st: "\<forall>q\<in>set ((x, y) # stack). q = start \<or> (\<exists>p\<in>visited. adjacent p q)"
    and cl: "\<forall>p\<in>visited. \<forall>q. adjacent p q \<and> empty_at s q \<longrightarrow> q \<in> visited \<or> q \<in> set ((x, y) # stack)"
    and s0: "empty_at s start \<longrightarrow> start \<in> visited \<or> start \<in> set ((x, y) # stack)"
    using inv unfolding flood_inv_def by blast+
  have reg: "(x, y) \<in> region s start"
  proof -
    from st have "(x, y) = start \<or> (\<exists>p\<in>visited. adjacent p (x, y))" by simp
    then show ?thesis
    proof
      assume "(x, y) = start"
      with emp show ?thesis by (auto intro: region_start)
    next
      assume "\<exists>p\<in>visited. adjacent p (x, y)"
      then obtain p where "p \<in> visited" "adjacent p (x, y)" by blast
      with a(3) emp show ?thesis by (auto intro: region_step)
    qed
  qed
  have 1: "set (area @ [(x, y)]) = insert (x, y) visited" using a(1) by auto
  have 2: "distinct (area @ [(x, y)])" using a(1,2) new by simp
  have 3: "insert (x, y) visited \<subseteq> region s start" using a(3) reg by simp
  have 4: "\<forall>q\<in>set ((x - 1, y) # (x + 1, y) # (x, y - 1) # (x, y + 1) # stack).
             q = start \<or> (\<exists>p\<in>insert (x, y) visited. adjacent p q)"
  proof
    fix q assume q: "q \<in> set ((x - 1, y) # (x + 1, y) # (x, y - 1) # (x, y + 1) # stack)"
    show "q = start \<or> (\<exists>p\<in>insert (x, y) visited. adjacent p q)"
    proof (cases "q \<in> set stack")
      case True
      with st show ?thesis by auto
    next
      case False
      with q have "adjacent (x, y) q" by (auto simp: adjacent_cases)
      then show ?thesis by blast
    qed
  qed
  have 5: "\<forall>p\<in>insert (x, y) visited. \<forall>q. adjacent p q \<and> empty_at s q \<longrightarrow>
             q \<in> insert (x, y) visited \<or> q \<in> set ((x - 1, y) # (x + 1, y) # (x, y - 1) # (x, y + 1) # stack)"
  proof (intro ballI allI impI)
    fix p q assume p: "p \<in> insert (x, y) visited" and q: "adjacent p q \<and> empty_at s q"
    show "q \<in> insert (x, y) visited \<or> q \<in> set ((x - 1, y) # (x + 1, y) # (x, y - 1) # (x, y + 1) # stack)"
    proof (cases "p = (x, y)")
      case True
      with q show ?thesis by (auto simp: adjacent_cases)
    next
      case False
      with p have "p \<in> visited" by simp
      with cl q have "q \<in> visited \<or> q \<in> set ((x, y) # stack)" by blast
      then show ?thesis by auto
    qed
  qed
  have 6: "empty_at s start \<longrightarrow> start \<in> insert (x, y) visited
             \<or> start \<in> set ((x - 1, y) # (x + 1, y) # (x, y - 1) # (x, y + 1) # stack)"
    using s0 by auto
  show ?thesis unfolding flood_inv_def using 1 2 3 4 5 6 by blast
qed

lemma flood_loop_inv:
  "flood_inv s start stack visited area \<Longrightarrow> grid_shape s \<Longrightarrow>
    \<exists>area' visited'. flood_loop s stack visited area = Some (area', visited')
       \<and> flood_inv s start [] visited' area'"
proof (induction s stack visited area rule: flood_loop.induct)
  case (1 s visited area)
  then show ?case by simp
next
  case (2 s x y stack visited area)
  note inv = "2.prems"(1) and shape = "2.prems"(2)
  show ?case
  proof (cases "(x, y) \<in> visited")
    case True
    then have "flood_inv s start stack visited area" using inv by (auto intro: flood_inv_skip)
    with "2.IH"(1) True shape obtain a v
      where "flood_loop s stack visited area = Some (a, v)" "flood_inv s start [] v a" by blast
    then show ?thesis using True by simp
  next
    case nv: False
    show ?thesis
    proof (cases "in_board s x y")
      case False
      then have "\<not> empty_at s (x, y)" by (simp add: empty_at_iff)
      then have "flood_inv s start stack visited area" using inv by (auto intro: flood_inv_skip)
      with "2.IH"(2) nv False shape obtain a v
        where "flood_loop s stack visited area = Some (a, v)" "flood_inv s start [] v a" by blast
      then show ?thesis using nv False by simp
    next
      case ib: True
      have r: "grid_read (grid s) x y = Some (grid s ! nat y ! nat x)"
        using grid_read_in_board[OF shape ib] .
      show ?thesis
      proof (cases "grid s ! nat y ! nat x = EMPTY")
        case False
        then have "\<not> empty_at s (x, y)" by (simp add: empty_at_iff r)
        then have "flood_inv s start stack visited area" using inv by (auto intro: flood_inv_skip)
        with "2.IH"(3) nv ib r False shape obtain a v
          where "flood_loop s stack visited area = Some (a, v)" "flood_inv s start [] v a" by blast
        then show ?thesis using nv ib r False by simp
      next
        case True
        then have e: "empty_at s (x, y)" by (simp add: empty_at_iff r ib)
        have "flood_inv s start ((x - 1, y) # (x + 1, y) # (x, y - 1) # (x, y + 1) # stack)
           (insert (x, y) visited) (area @ [(x, y)])"
          by (rule flood_inv_visit[OF inv nv e])
        with "2.IH"(4) nv ib r True shape obtain a v
          where "flood_loop s ((x - 1, y) # (x + 1, y) # (x, y - 1) # (x, y + 1) # stack)
                   (insert (x, y) visited) (area @ [(x, y)]) = Some (a, v)"
            "flood_inv s start [] v a" by blast
        then show ?thesis using nv ib r True by simp
      qed
    qed
  qed
qed

lemma flood_inv_done:
  assumes "flood_inv s start [] visited area" "empty_at s start"
  shows "visited = region s start"
proof
  show "visited \<subseteq> region s start" using assms(1) by (simp add: flood_inv_def)
next
  have cl: "\<forall>p\<in>visited. \<forall>q. adjacent p q \<and> empty_at s q \<longrightarrow> q \<in> visited"
    and s0: "start \<in> visited"
    using assms by (simp_all add: flood_inv_def)
  show "region s start \<subseteq> visited"
  proof
    fix q assume "q \<in> region s start"
    then show "q \<in> visited"
      by (induction rule: region.induct) (use cl s0 in blast)+
  qed
qed

lemma any_enemy_in_eq:
  assumes "GRID_SIZE s \<noteq> 0"
  shows "any_enemy_in s visited es
    = Some (list_ex (\<lambda>e. (enemy_x e div GRID_SIZE s, enemy_y e div GRID_SIZE s) \<in> visited) es)"
  using assms by (induction es) (simp_all add: quantize_def)

lemma flood_fill_region:
  assumes "grid_shape s" "GRID_SIZE s \<noteq> 0" "empty_at s (x, y)"
  shows "\<exists>area. flood_fill s x y = Some (area, enemy_in s (region s (x, y)))
            \<and> set area = region s (x, y) \<and> distinct area"
proof -
  have "flood_inv s (x, y) [(x, y)] {} []" by (simp add: flood_inv_def)
  from flood_loop_inv[OF this assms(1)] obtain area visited
    where fl: "flood_loop s [(x, y)] {} [] = Some (area, visited)"
      and inv: "flood_inv s (x, y) [] visited area" by blast
  have v: "visited = region s (x, y)" by (rule flood_inv_done[OF inv assms(3)])
  have "flood_fill s x y = Some (area, enemy_in s (region s (x, y)))"
    unfolding flood_fill_def fl by (simp add: any_enemy_in_eq[OF assms(2)] enemy_in_def v)
  moreover have "set area = region s (x, y)" "distinct area"
    using inv v by (simp_all add: flood_inv_def)
  ultimately show ?thesis by blast
qed

section \<open>Writing cells\<close>

lemma in_board_grid_update [simp]: "in_board (s\<lparr>grid := g\<rparr>) x y = in_board s x y"
  by (simp add: in_board_def)

lemma grid_write_shape:
  assumes "grid_shape s" "in_board s x y"
  shows "\<exists>g'. grid_write (grid s) x y v = Some g' \<and> grid_shape (s\<lparr>grid := g'\<rparr>) \<and>
           (\<forall>p. cell_at (s\<lparr>grid := g'\<rparr>) p = (if p = (x, y) then Some v else cell_at s p))"
proof -
  let ?g = "grid s"
  let ?g' = "?g[nat y := (?g ! nat y)[nat x := v]]"
  have y: "0 \<le> y" "y < GRID_HEIGHT s" and x: "0 \<le> x" "x < GRID_WIDTH s"
    using assms(2) by (simp_all add: in_board_def)
  have ly: "nat y < length ?g" and lx: "length (?g ! nat y) = nat (GRID_WIDTH s)"
    using grid_shape_row[OF assms(1) y] by simp_all
  have r: "py_index ?g y = Some (nat y)" using ly y by (simp add: py_index_nat)
  have c: "py_index (?g ! nat y) x = Some (nat x)" using lx x by (simp add: py_index_nat)
  have w: "grid_write ?g x y v = Some ?g'" by (simp add: grid_write_def r c)
  have rows: "\<forall>row\<in>set ?g. length row = nat (GRID_WIDTH s)"
    using assms(1) by (simp add: grid_shape_def list_all_iff)
  have "\<forall>row\<in>set ?g'. length row = nat (GRID_WIDTH s)"
  proof
    fix row assume "row \<in> set ?g'"
    then have "row \<in> insert ((?g ! nat y)[nat x := v]) (set ?g)"
      using set_update_subset_insert by fastforce
    then show "length row = nat (GRID_WIDTH s)" using rows lx by auto
  qed
  then have sh: "grid_shape (s\<lparr>grid := ?g'\<rparr>)"
    using assms(1) by (simp add: grid_shape_def list_all_iff)
  have "cell_at (s\<lparr>grid := ?g'\<rparr>) p = (if p = (x, y) then Some v else cell_at s p)" for p
  proof (cases "in_board s (fst p) (snd p)")
    case False
    then show ?thesis using assms(2) by (auto simp: cell_at_def)
  next
    case True
    then have p: "0 \<le> fst p" "fst p < GRID_WIDTH s" "0 \<le> snd p" "snd p < GRID_HEIGHT s"
      by (simp_all add: in_board_def)
    have a: "cell_at (s\<lparr>grid := ?g'\<rparr>) p = Some (?g' ! nat (snd p) ! nat (fst p))"
      using cell_at_in_board[OF sh, of p] True by simp
    have b: "cell_at s p = Some (?g ! nat (snd p) ! nat (fst p))"
      using cell_at_in_board[OF assms(1) True] .
    have ly': "nat (snd p) < length ?g" using grid_shape_row(1)[OF assms(1) p(3,4)] .
    have lx': "nat (fst p) < length (?g ! nat (snd p))"
      using grid_shape_row(2)[OF assms(1) p(3,4)] p by simp
    show ?thesis
    proof (cases "snd p = y")
      case False
      then have "nat (snd p) \<noteq> nat y" using p y by simp
      then show ?thesis using a b False by (auto simp: nth_list_update)
    next
      case sy: True
      show ?thesis
      proof (cases "fst p = x")
        case True
        with sy have "p = (x, y)" by (cases p) simp
        then show ?thesis using a ly lx x by simp
      next
        case False
        then have "nat (fst p) \<noteq> nat x" using p x by simp
        moreover have "p \<noteq> (x, y)" using False by auto
        ultimately show ?thesis using a b sy ly by (simp add: nth_list_update)
      qed
    qed
  qed
  with w sh show ?thesis by blast
qed

lemma set_cells_shape:
  "grid_shape s \<Longrightarrow> \<forall>p\<in>set cells. in_board s (fst p) (snd p) \<Longrightarrow>
     \<exists>g'. set_cells v cells (grid s) = Some g' \<and> grid_shape (s\<lparr>grid := g'\<rparr>) \<and>
           (\<forall>p. cell_at (s\<lparr>grid := g'\<rparr>) p = (if p \<in> set cells then Some v else cell_at s p))"
proof (induction cells arbitrary: s)
  case Nil
  then show ?case by (simp add: set_cells_def cell_at_def)
next
  case (Cons c cells)
  obtain x y where c: "c = (x, y)" by (cases c)
  have ib: "in_board s x y" using Cons.prems(2) c by simp
  from grid_write_shape[OF Cons.prems(1) ib, of v] obtain g1
    where w: "grid_write (grid s) x y v = Some g1" and sh1: "grid_shape (s\<lparr>grid := g1\<rparr>)"
      and c1: "\<forall>p. cell_at (s\<lparr>grid := g1\<rparr>) p = (if p = (x, y) then Some v else cell_at s p)"
    by blast
  have "\<forall>p\<in>set cells. in_board (s\<lparr>grid := g1\<rparr>) (fst p) (snd p)" using Cons.prems(2) by simp
  from Cons.IH[OF sh1 this] obtain g'
    where sc: "set_cells v cells g1 = Some g'" and sh': "grid_shape (s\<lparr>grid := g'\<rparr>)"
      and c': "\<forall>p. cell_at (s\<lparr>grid := g'\<rparr>) p
                 = (if p \<in> set cells then Some v else cell_at (s\<lparr>grid := g1\<rparr>) p)"
    by auto
  have "set_cells v (c # cells) (grid s) = Some g'"
    using w sc by (simp add: set_cells_def c)
  moreover have "\<forall>p. cell_at (s\<lparr>grid := g'\<rparr>) p = (if p \<in> set (c # cells) then Some v else cell_at s p)"
    using c' c1 c by auto
  ultimately show ?case using sh' by blast
qed

section \<open>Regions, and loops with an invariant\<close>

lemma region_trans: "r \<in> region s q \<Longrightarrow> q \<in> region s p \<Longrightarrow> r \<in> region s p"
  by (induction rule: region.induct) (auto intro: region_step)

lemma region_sym: "q \<in> region s p \<Longrightarrow> p \<in> region s q"
proof (induction rule: region.induct)
  case region_start
  then show ?case by (rule region.region_start)
next
  case (region_step q r)
  have "r \<in> region s r" using region_step.hyps(3) by (rule region.region_start)
  then have "q \<in> region s r"
    using region_step.hyps(1,2) by (auto intro: region.region_step adjacent_sym region_empty_at)
  with region_step.IH show ?case by (rule region_trans)
qed

lemma region_eq: "q \<in> region s p \<Longrightarrow> region s q = region s p"
  by (auto intro: region_trans region_sym)

lemma region_self: "empty_at s p \<Longrightarrow> p \<in> region s p"
  by (rule region_start)

lemma region_mono:
  assumes "\<And>q. empty_at t q \<Longrightarrow> empty_at s q"
  shows "region t p \<subseteq> region s p"
proof
  fix q assume "q \<in> region t p"
  then show "q \<in> region s p"
    by (induction rule: region.induct) (auto intro: region_start region_step assms)
qed

lemma for_each_invariant:
  assumes "I pre s"
    and "\<And>ys a st. I ys st \<Longrightarrow> a \<in> set xs \<Longrightarrow> \<exists>st'. f a st = Some st' \<and> I (ys @ [a]) st'"
  shows "\<exists>st'. for_each xs f s = Some st' \<and> I (pre @ xs) st'"
  using assms
proof (induction xs arbitrary: pre s)
  case Nil
  then show ?case by simp
next
  case (Cons a xs)
  from Cons.prems(2)[OF Cons.prems(1), of a] obtain s1
    where s1: "f a s = Some s1" "I (pre @ [a]) s1" by auto
  have "\<exists>st'. for_each xs f s1 = Some st' \<and> I ((pre @ [a]) @ xs) st'"
    by (rule Cons.IH[OF s1(2)]) (use Cons.prems(2) in auto)
  then show ?case using s1(1) by simp
qed

section \<open>The scan loop of the claiming pass\<close>

lemma empty_at_in_board: "empty_at s p \<Longrightarrow> in_board s (fst p) (snd p)"
  by (simp add: empty_at_def cell_at_def split: if_splits)

lemma enemy_in_grid_update [simp]: "enemy_in (s\<lparr>grid := g\<rparr>) A = enemy_in s A"
  by (simp add: enemy_in_def)

lemma scan_region_same:
  assumes cells: "\<forall>p. cell_at t p =
           (if empty_at s1 p \<and> \<not> enemy_in s1 (region s1 p) \<and> region s1 p \<inter> set seen \<noteq> {}
            then Some CLAIMED else cell_at s1 p)"
    and e: "empty_at t c"
  shows "region t c = region s1 c"
proof
  have "empty_at s1 q" if "empty_at t q" for q
    using that cells[rule_format, of q] by (auto simp: empty_at_def split: if_splits)
  then show "region t c \<subseteq> region s1 c" by (rule region_mono)
next
  have e1: "empty_at s1 c" and nc: "\<not> (\<not> enemy_in s1 (region s1 c) \<and> region s1 c \<inter> set seen \<noteq> {})"
    using e cells[rule_format, of c] by (auto simp: empty_at_def split: if_splits)
  show "region s1 c \<subseteq> region t c"
  proof
    fix q assume "q \<in> region s1 c"
    then show "q \<in> region t c"
    proof (induction rule: region.induct)
      case region_start
      show ?case using e by (rule region.region_start)
    next
      case (region_step q r)
      have "r \<in> region s1 c" using region_step.hyps by (auto intro: region.region_step)
      then have "region s1 r = region s1 c" by (rule region_eq)
      with nc have "cell_at t r = cell_at s1 r" using cells[rule_format, of r] by auto
      with region_step.hyps(3) have "empty_at t r" by (simp add: empty_at_def)
      with region_step.IH region_step.hyps(2) show ?case by (auto intro: region.region_step)
    qed
  qed
qed

lemma scan_invI:
  assumes "t = s1\<lparr>grid := g\<rparr>" "grid_shape t"
    and "\<And>p. cell_at t p =
           (if empty_at s1 p \<and> \<not> enemy_in s1 (region s1 p) \<and> region s1 p \<inter> set seen \<noteq> {}
            then Some CLAIMED else cell_at s1 p)"
    and "\<And>f. f \<in> set fills \<Longrightarrow> distinct (fst f) \<and> snd f = enemy_in s1 (set (fst f)) \<and>
           (\<forall>p\<in>set (fst f). set (fst f) = region s1 p)"
    and "\<And>p. visits fills p =
           (if empty_at s1 p
            then (if enemy_in s1 (region s1 p)
                  then length (filter (\<lambda>c. c \<in> region s1 p) seen)
                  else (if region s1 p \<inter> set seen \<noteq> {} then 1 else 0))
            else 0)"
  shows "scan_inv s1 seen (t, fills)"
  unfolding scan_inv_def prod.case using assms by blast

lemma visits_snoc:
  "visits (fills @ [(area, b)]) p = visits fills p + (if p \<in> set area then 1 else 0)"
  by (simp add: visits_def)

lemma scan_step:
  assumes shape: "grid_shape s1" and size: "GRID_SIZE s1 \<noteq> 0"
    and inv: "scan_inv s1 seen tf" and c: "in_board s1 (fst c) (snd c)"
  shows "\<exists>tf'. claim_cell c tf = Some tf' \<and> scan_inv s1 (seen @ [c]) tf'"
proof -
  obtain t fills where tf: "tf = (t, fills)" by (cases tf)
  obtain g where t: "t = s1\<lparr>grid := g\<rparr>"
    using inv by (auto simp: scan_inv_def tf)
  have sh: "grid_shape t"
    and cells: "\<forall>p. cell_at t p =
           (if empty_at s1 p \<and> \<not> enemy_in s1 (region s1 p) \<and> region s1 p \<inter> set seen \<noteq> {}
            then Some CLAIMED else cell_at s1 p)"
    and fl: "\<forall>f\<in>set fills. distinct (fst f) \<and> snd f = enemy_in s1 (set (fst f)) \<and>
           (\<forall>p\<in>set (fst f). set (fst f) = region s1 p)"
    and vs: "\<forall>p. visits fills p =
           (if empty_at s1 p
            then (if enemy_in s1 (region s1 p)
                  then length (filter (\<lambda>c. c \<in> region s1 p) seen)
                  else (if region s1 p \<inter> set seen \<noteq> {} then 1 else 0))
            else 0)"
    using inv unfolding scan_inv_def tf prod.case by blast+
  have ct: "in_board t (fst c) (snd c)" using c t by simp
  obtain v where rd: "grid_read (grid t) (fst c) (snd c) = Some v" and cv: "cell_at t c = Some v"
    using grid_read_in_board[OF sh ct] ct by (simp add: cell_at_def)
  show ?thesis
  proof (cases "v = EMPTY")
    case False
    have cc: "claim_cell c tf = Some (t, fills)"
      using False by (simp add: claim_cell_def tf rd)
    have notin: "c \<notin> region s1 p" if "enemy_in s1 (region s1 p)" for p
    proof
      assume a: "c \<in> region s1 p"
      then have eq: "region s1 c = region s1 p" by (rule region_eq)
      have "empty_at s1 c" using a by (rule region_empty_at)
      then have "cell_at t c = Some EMPTY"
        using cells[rule_format, of c] that eq by (simp add: empty_at_def)
      with cv False show False by simp
    qed
    have same: "(empty_at s1 p \<and> \<not> enemy_in s1 (region s1 p) \<and> region s1 p \<inter> set (seen @ [c]) \<noteq> {})
        \<longleftrightarrow> (empty_at s1 p \<and> \<not> enemy_in s1 (region s1 p) \<and> region s1 p \<inter> set seen \<noteq> {})" for p
    proof (cases "c \<in> region s1 p")
      case False
      then show ?thesis by auto
    next
      case True
      then have eq: "region s1 c = region s1 p" by (rule region_eq)
      have e1: "empty_at s1 c" using True by (rule region_empty_at)
      have "cell_at t c \<noteq> Some EMPTY" using cv False by simp
      then have "\<not> enemy_in s1 (region s1 c) \<and> region s1 c \<inter> set seen \<noteq> {}"
        using cells[rule_format, of c] e1 by (auto simp: empty_at_def split: if_splits)
      then show ?thesis using eq by auto
    qed
    have "scan_inv s1 (seen @ [c]) (t, fills)"
    proof (rule scan_invI[OF t sh])
      show "cell_at t p =
           (if empty_at s1 p \<and> \<not> enemy_in s1 (region s1 p) \<and> region s1 p \<inter> set (seen @ [c]) \<noteq> {}
            then Some CLAIMED else cell_at s1 p)" for p
        using cells[rule_format, of p] same[of p] by simp
      show "distinct (fst f) \<and> snd f = enemy_in s1 (set (fst f)) \<and>
           (\<forall>p\<in>set (fst f). set (fst f) = region s1 p)" if "f \<in> set fills" for f
        using fl that by blast
      show "visits fills p =
           (if empty_at s1 p
            then (if enemy_in s1 (region s1 p)
                  then length (filter (\<lambda>c. c \<in> region s1 p) (seen @ [c]))
                  else (if region s1 p \<inter> set (seen @ [c]) \<noteq> {} then 1 else 0))
            else 0)" for p
      proof (cases "empty_at s1 p \<and> enemy_in s1 (region s1 p)")
        case True
        then show ?thesis using vs[rule_format, of p] notin[of p] by simp
      next
        case False
        then show ?thesis using vs[rule_format, of p] same[of p] by auto
      qed
    qed
    with cc show ?thesis by blast
  next
    case True
    have et: "empty_at t c" using cv True by (simp add: empty_at_def)
    have e1: "empty_at s1 c"
      and nc: "\<not> (\<not> enemy_in s1 (region s1 c) \<and> region s1 c \<inter> set seen \<noteq> {})"
      using et cells[rule_format, of c] by (auto simp: empty_at_def split: if_splits)
    have reg: "region t c = region s1 c" by (rule scan_region_same[OF cells et])
    have size_t: "GRID_SIZE t \<noteq> 0" using size t by simp
    from flood_fill_region[OF sh size_t, of "fst c" "snd c"] et obtain area
      where ff: "flood_fill t (fst c) (snd c) = Some (area, enemy_in s1 (region s1 c))"
        and sa: "set area = region s1 c" and da: "distinct area"
      using reg t by auto
    have cin: "c \<in> region s1 c" using e1 by (rule region_self)
    have ne: "area \<noteq> []" using sa cin by auto
    have mem: "c \<in> region s1 p \<longleftrightarrow> p \<in> region s1 c" for p
      by (auto dest: region_sym)
    have fl2: "distinct (fst f) \<and> snd f = enemy_in s1 (set (fst f)) \<and>
           (\<forall>p\<in>set (fst f). set (fst f) = region s1 p)"
      if "f \<in> set (fills @ [(area, enemy_in s1 (region s1 c))])" for f
    proof (cases "f \<in> set fills")
      case True
      then show ?thesis using fl by blast
    next
      case False
      with that have "f = (area, enemy_in s1 (region s1 c))" by simp
      then show ?thesis using sa da by (auto dest: region_eq)
    qed
    have vs2: "visits (fills @ [(area, b)]) p =
           (if empty_at s1 p
            then (if enemy_in s1 (region s1 p)
                  then length (filter (\<lambda>c. c \<in> region s1 p) (seen @ [c]))
                  else (if region s1 p \<inter> set (seen @ [c]) \<noteq> {} then 1 else 0))
            else 0)" for p b
    proof (cases "p \<in> region s1 c")
      case True
      then have eq: "region s1 p = region s1 c" by (rule region_eq)
      have ep: "empty_at s1 p" using True by (rule region_empty_at)
      show ?thesis
        using vs[rule_format, of p] True eq ep sa cin nc by (auto simp: visits_snoc)
    next
      case False
      then have cn: "c \<notin> region s1 p" using mem by simp
      then have "region s1 p \<inter> set (seen @ [c]) \<noteq> {} \<longleftrightarrow> region s1 p \<inter> set seen \<noteq> {}" by auto
      then show ?thesis
        using vs[rule_format, of p] False cn sa by (simp add: visits_snoc)
    qed
    show ?thesis
    proof (cases "enemy_in s1 (region s1 c)")
      case en: True
      have cc: "claim_cell c tf = Some (t, fills @ [(area, enemy_in s1 (region s1 c))])"
        using True en by (simp add: claim_cell_def tf rd ff)
      have same: "(empty_at s1 p \<and> \<not> enemy_in s1 (region s1 p) \<and> region s1 p \<inter> set (seen @ [c]) \<noteq> {})
        \<longleftrightarrow> (empty_at s1 p \<and> \<not> enemy_in s1 (region s1 p) \<and> region s1 p \<inter> set seen \<noteq> {})" for p
      proof (cases "c \<in> region s1 p")
        case False
        then show ?thesis by auto
      next
        case True
        then have "region s1 c = region s1 p" by (rule region_eq)
        with en show ?thesis by auto
      qed
      have "scan_inv s1 (seen @ [c]) (t, fills @ [(area, enemy_in s1 (region s1 c))])"
      proof (rule scan_invI[OF t sh _ fl2 vs2])
        show "cell_at t p =
           (if empty_at s1 p \<and> \<not> enemy_in s1 (region s1 p) \<and> region s1 p \<inter> set (seen @ [c]) \<noteq> {}
            then Some CLAIMED else cell_at s1 p)" for p
          using cells[rule_format, of p] same[of p] by simp
      qed
      with cc show ?thesis by blast
    next
      case en: False
      have ab: "\<forall>p\<in>set area. in_board t (fst p) (snd p)"
        using sa t by (auto dest!: region_empty_at empty_at_in_board)
      from set_cells_shape[OF sh ab, of CLAIMED] obtain g'
        where sc: "set_cells CLAIMED area (grid t) = Some g'"
          and sh': "grid_shape (t\<lparr>grid := g'\<rparr>)"
          and c': "\<forall>p. cell_at (t\<lparr>grid := g'\<rparr>) p = (if p \<in> set area then Some CLAIMED else cell_at t p)"
        by blast
      have cc: "claim_cell c tf
          = Some (t\<lparr>grid := g'\<rparr>, fills @ [(area, enemy_in s1 (region s1 c))])"
        using True en ne by (simp add: claim_cell_def tf rd ff sc)
      have cells': "cell_at (t\<lparr>grid := g'\<rparr>) p =
           (if empty_at s1 p \<and> \<not> enemy_in s1 (region s1 p) \<and> region s1 p \<inter> set (seen @ [c]) \<noteq> {}
            then Some CLAIMED else cell_at s1 p)" for p
      proof (cases "p \<in> region s1 c")
        case True
        then have "region s1 p = region s1 c" by (rule region_eq)
        moreover have "empty_at s1 p" using True by (rule region_empty_at)
        ultimately show ?thesis using c'[rule_format, of p] True sa en cin by auto
      next
        case False
        then have "c \<notin> region s1 p" by (auto dest: region_sym)
        then have "region s1 p \<inter> set (seen @ [c]) \<noteq> {} \<longleftrightarrow> region s1 p \<inter> set seen \<noteq> {}" by auto
        then show ?thesis using c'[rule_format, of p] False sa cells[rule_format, of p] by simp
      qed
      have t': "t\<lparr>grid := g'\<rparr> = s1\<lparr>grid := g'\<rparr>" using t by simp
      have "scan_inv s1 (seen @ [c]) (t\<lparr>grid := g'\<rparr>, fills @ [(area, enemy_in s1 (region s1 c))])"
        by (rule scan_invI[OF t' sh' cells' fl2 vs2])
      with cc show ?thesis by blast
    qed
  qed
qed

section \<open>The claiming pass\<close>

lemma well_formedD:
  assumes "well_formed s"
  shows "GRID_SIZE s \<noteq> 0" "grid_shape s"
    "\<And>p. p \<in> set (ring s) \<Longrightarrow> cell_at s p = Some BORDER"
    "\<And>p. p \<in> set (trail s) \<Longrightarrow> in_board s (fst p) (snd p)"
  using assms by (auto simp: well_formed_def list_all_iff)

lemma interior_grid_update [simp]: "interior (s\<lparr>grid := g\<rparr>) = interior s"
  by (simp add: interior_def)

lemma ring_grid_update [simp]: "ring (s\<lparr>grid := g\<rparr>) = ring s"
  by (simp add: ring_def)

text \<open>What the claiming pass as a whole establishes.\<close>

lemma claim_territory_fills_inv:
  assumes wf: "well_formed s"
  shows "\<exists>g t fills. set_cells BORDER (trail s) (grid s) = Some g \<and>
           claim_territory_fills s = Some (t, fills) \<and>
           grid_shape (s\<lparr>grid := g\<rparr>) \<and>
           (\<forall>p. cell_at (s\<lparr>grid := g\<rparr>) p = (if p \<in> set (trail s) then Some BORDER else cell_at s p)) \<and>
           (\<forall>p. empty_at (s\<lparr>grid := g\<rparr>) p \<longrightarrow> p \<in> set (interior s)) \<and>
           scan_inv (s\<lparr>grid := g\<rparr>) (interior s) (t, fills)"
proof -
  note w = well_formedD[OF wf]
  from set_cells_shape[OF w(2), of "trail s" BORDER] w(4) obtain g
    where sc: "set_cells BORDER (trail s) (grid s) = Some g"
      and sh: "grid_shape (s\<lparr>grid := g\<rparr>)"
      and cg: "\<forall>p. cell_at (s\<lparr>grid := g\<rparr>) p = (if p \<in> set (trail s) then Some BORDER else cell_at s p)"
    by blast
  let ?s1 = "s\<lparr>grid := g\<rparr>"
  have size: "GRID_SIZE ?s1 \<noteq> 0" using w(1) by simp
  have init: "scan_inv ?s1 [] (?s1, [])"
    by (rule scan_invI[where g = g]) (simp_all add: sh visits_def)
  have step: "\<exists>st'. claim_cell a st = Some st' \<and> scan_inv ?s1 (ys @ [a]) st'"
    if "scan_inv ?s1 ys st" "a \<in> set (interior s)" for ys a st
  proof -
    have "in_board ?s1 (fst a) (snd a)" using that(2) by (simp add: interior_in_board)
    from scan_step[OF sh size that(1) this] show ?thesis .
  qed
  from for_each_invariant[of "scan_inv ?s1" "[]" "(?s1, [])" "interior s" claim_cell, OF init step]
  obtain tf where fe: "for_each (interior s) claim_cell (?s1, []) = Some tf"
    and inv: "scan_inv ?s1 (interior s) tf" by auto
  obtain t fills where tf: "tf = (t, fills)" by (cases tf)
  have ctf: "claim_territory_fills s = Some (t, fills)"
    by (simp add: claim_territory_fills_def sc fe tf)
  have int: "p \<in> set (interior s)" if "empty_at ?s1 p" for p
  proof -
    have ib: "in_board s (fst p) (snd p)" using empty_at_in_board[OF that] by simp
    have "p \<notin> set (ring s)"
    proof
      assume r: "p \<in> set (ring s)"
      then have "cell_at ?s1 p = Some BORDER" using cg[rule_format, of p] w(3)[OF r] by simp
      with that show False by (simp add: empty_at_def)
    qed
    with ib show ?thesis by (simp add: interior_ring)
  qed
  show ?thesis using sc ctf sh cg int inv tf by blast
qed

lemma scan_inv_cells:
  assumes "scan_inv s1 seen (t, fills)"
  shows "cell_at t p =
           (if empty_at s1 p \<and> \<not> enemy_in s1 (region s1 p) \<and> region s1 p \<inter> set seen \<noteq> {}
            then Some CLAIMED else cell_at s1 p)"
  using assms unfolding scan_inv_def prod.case by blast

lemma scan_inv_final:
  assumes inv: "scan_inv s1 seen (t, fills)" and all: "\<And>p. empty_at s1 p \<Longrightarrow> p \<in> set seen"
  shows "cell_at t p = (if empty_at s1 p \<and> \<not> enemy_in s1 (region s1 p) then Some CLAIMED else cell_at s1 p)"
proof -
  have c: "cell_at t p =
           (if empty_at s1 p \<and> \<not> enemy_in s1 (region s1 p) \<and> region s1 p \<inter> set seen \<noteq> {}
            then Some CLAIMED else cell_at s1 p)"
    by (rule scan_inv_cells[OF inv])
  have "region s1 p \<inter> set seen \<noteq> {}" if "empty_at s1 p"
    using region_self[OF that] all[OF that] by blast
  with c show ?thesis by auto
qed

text \<open>
  Claim C1. In a well-formed game the claiming pass returns normally and changes only the
  grid. Let \<open>g\<close> be the grid after every trail cell has been marked \<open>BORDER\<close>. Every
  maximal 4-connected region of \<open>EMPTY\<close> cells of \<open>g\<close> lies in the interior; if the quantized
  position \<open>(enemy.x div GRID_SIZE, enemy.y div GRID_SIZE)\<close> of some enemy lies in the region,
  all its cells are still \<open>EMPTY\<close> afterwards, and otherwise all its cells are \<open>CLAIMED\<close>.
  The cells that are not \<open>EMPTY\<close> in \<open>g\<close> keep their state.
\<close>

theorem claim_territory_regions:
  assumes "well_formed s"
  shows "\<exists>g s'. set_cells BORDER (trail s) (grid s) = Some g \<and>
           claim_territory s = Some s' \<and> s' = s\<lparr>grid := grid s'\<rparr> \<and>
           (\<forall>p. cell_at (s\<lparr>grid := g\<rparr>) p = (if p \<in> set (trail s) then Some BORDER else cell_at s p)) \<and>
           (\<forall>p. empty_at (s\<lparr>grid := g\<rparr>) p \<longrightarrow>
              region (s\<lparr>grid := g\<rparr>) p \<subseteq> set (interior s) \<and>
              (if enemy_in s (region (s\<lparr>grid := g\<rparr>) p)
               then \<forall>q\<in>region (s\<lparr>grid := g\<rparr>) p. cell_at s' q = Some EMPTY
               else \<forall>q\<in>region (s\<lparr>grid := g\<rparr>) p. cell_at s' q = Some CLAIMED)) \<and>
           (\<forall>p. \<not> empty_at (s\<lparr>grid := g\<rparr>) p \<longrightarrow> cell_at s' p = cell_at (s\<lparr>grid := g\<rparr>) p)"
proof -
  from claim_territory_fills_inv[OF assms] obtain g t fills
    where sc: "set_cells BORDER (trail s) (grid s) = Some g"
      and ctf: "claim_territory_fills s = Some (t, fills)"
      and cg: "\<forall>p. cell_at (s\<lparr>grid := g\<rparr>) p = (if p \<in> set (trail s) then Some BORDER else cell_at s p)"
      and int: "\<forall>p. empty_at (s\<lparr>grid := g\<rparr>) p \<longrightarrow> p \<in> set (interior s)"
      and inv: "scan_inv (s\<lparr>grid := g\<rparr>) (interior s) (t, fills)"
    by blast
  let ?s1 = "s\<lparr>grid := g\<rparr>"
  have fin: "cell_at t p = (if empty_at ?s1 p \<and> \<not> enemy_in ?s1 (region ?s1 p) then Some CLAIMED else cell_at ?s1 p)" for p
    by (rule scan_inv_final[OF inv]) (use int in blast)
  have ct: "claim_territory s = Some t" by (simp add: claim_territory_def ctf)
  obtain g' where "t = ?s1\<lparr>grid := g'\<rparr>" using inv by (auto simp: scan_inv_def)
  then have tt: "t = s\<lparr>grid := grid t\<rparr>" by simp
  have reg: "region ?s1 p \<subseteq> set (interior s) \<and>
              (if enemy_in s (region ?s1 p)
               then \<forall>q\<in>region ?s1 p. cell_at t q = Some EMPTY
               else \<forall>q\<in>region ?s1 p. cell_at t q = Some CLAIMED)" if "empty_at ?s1 p" for p
  proof -
    have q: "empty_at ?s1 q \<and> region ?s1 q = region ?s1 p" if "q \<in> region ?s1 p" for q
      using that by (auto dest: region_empty_at region_eq)
    have "region ?s1 p \<subseteq> set (interior s)" using q int by blast
    moreover have "cell_at t q = Some EMPTY" if "q \<in> region ?s1 p" "enemy_in s (region ?s1 p)" for q
      using fin[of q] q[OF that(1)] that(2) by (simp add: empty_at_def)
    moreover have "cell_at t q = Some CLAIMED" if "q \<in> region ?s1 p" "\<not> enemy_in s (region ?s1 p)" for q
      using fin[of q] q[OF that(1)] that(2) by simp
    ultimately show ?thesis by simp
  qed
  have rest: "cell_at t p = cell_at ?s1 p" if "\<not> empty_at ?s1 p" for p
    using fin[of p] that by simp
  show ?thesis using sc ct tt cg reg rest by blast
qed

lemma small_game_well_formed: "well_formed small_game"
  by code_simp

lemma small_game_claim:
  "claim_territory small_game = Some (small_game\<lparr>grid :=
             [[BORDER, BORDER, BORDER, BORDER, BORDER, BORDER],
              [BORDER, EMPTY, EMPTY, BORDER, CLAIMED, BORDER],
              [BORDER, EMPTY, EMPTY, BORDER, CLAIMED, BORDER],
              [BORDER, EMPTY, EMPTY, BORDER, CLAIMED, BORDER],
              [BORDER, BORDER, BORDER, BORDER, BORDER, BORDER]]\<rparr>)"
  by code_simp


theorem claim_territory_regions_witness:
  "well_formed small_game \<and>
   (\<exists>g s'. set_cells BORDER (trail small_game) (grid small_game) = Some g \<and>
      claim_territory small_game = Some s' \<and> s' = small_game\<lparr>grid := grid s'\<rparr> \<and>
      (\<forall>p. empty_at (small_game\<lparr>grid := g\<rparr>) p \<longrightarrow>
         (if enemy_in small_game (region (small_game\<lparr>grid := g\<rparr>) p)
          then \<forall>q\<in>region (small_game\<lparr>grid := g\<rparr>) p. cell_at s' q = Some EMPTY
          else \<forall>q\<in>region (small_game\<lparr>grid := g\<rparr>) p. cell_at s' q = Some CLAIMED)))"
proof -
  from claim_territory_regions [OF small_game_well_formed] obtain g s'
    where "set_cells BORDER (trail small_game) (grid small_game) = Some g"
      "claim_territory small_game = Some s'" "s' = small_game\<lparr>grid := grid s'\<rparr>"
      "\<forall>p. empty_at (small_game\<lparr>grid := g\<rparr>) p \<longrightarrow>
              region (small_game\<lparr>grid := g\<rparr>) p \<subseteq> set (interior small_game) \<and>
              (if enemy_in small_game (region (small_game\<lparr>grid := g\<rparr>) p)
               then \<forall>q\<in>region (small_game\<lparr>grid := g\<rparr>) p. cell_at s' q = Some EMPTY
               else \<forall>q\<in>region (small_game\<lparr>grid := g\<rparr>) p. cell_at s' q = Some CLAIMED)"
    by blast
  then show ?thesis using small_game_well_formed by blast
qed

section \<open>The flood-fill runs of one pass\<close>

lemma trapped_shape: "grid_shape trapped_game"
  by (simp add: grid_shape_def trapped_game_def XonixGame_def list_all_iff)

lemma trapped_cell:
  assumes "in_board trapped_game (fst p) (snd p)"
  shows "cell_at trapped_game p
    = Some (if fst p = 0 \<or> fst p = 69 \<or> snd p = 0 \<or> snd p = 49 then BORDER else EMPTY)"
proof -
  have b: "0 \<le> fst p" "fst p < 70" "0 \<le> snd p" "snd p < 50"
    using assms by (simp_all add: in_board_def trapped_game_def XonixGame_def)
  have "grid trapped_game ! nat (snd p) ! nat (fst p)
      = (if fst p = 0 \<or> fst p = 69 \<or> snd p = 0 \<or> snd p = 49 then BORDER else EMPTY)"
    using b by (auto simp: trapped_game_def nth_Cons' nth_append nat_eq_iff)
  then show ?thesis using cell_at_in_board[OF trapped_shape assms] by simp
qed

lemma trapped_well_formed: "well_formed trapped_game"
proof -
  have "cell_at trapped_game p = Some BORDER" if "p \<in> set (ring trapped_game)" for p
  proof -
    have r: "p \<in> set (ring trapped_game)" by fact
    have ib: "in_board trapped_game (fst p) (snd p)"
      using r by (auto simp: ring_def in_board_def trapped_game_def XonixGame_def)
    have "fst p = 0 \<or> fst p = 69 \<or> snd p = 0 \<or> snd p = 49"
      using r ring_iff[OF ib] by (simp add: trapped_game_def XonixGame_def)
    then show ?thesis using trapped_cell[OF ib] by simp
  qed
  then show ?thesis
    using trapped_shape
    by (simp add: well_formed_def list_all_iff) (simp add: trapped_game_def XonixGame_def in_board_def)
qed


lemma scan_inv_fills:
  assumes "scan_inv s1 seen (t, fills)"
  shows "\<And>f. f \<in> set fills \<Longrightarrow> distinct (fst f) \<and> snd f = enemy_in s1 (set (fst f)) \<and>
           (\<forall>p\<in>set (fst f). set (fst f) = region s1 p)"
    and "\<And>p. visits fills p =
           (if empty_at s1 p
            then (if enemy_in s1 (region s1 p)
                  then length (filter (\<lambda>c. c \<in> region s1 p) seen)
                  else (if region s1 p \<inter> set seen \<noteq> {} then 1 else 0))
            else 0)"
  using assms unfolding scan_inv_def prod.case by blast+

lemma distinct_concat_visits:
  assumes "\<And>f. f \<in> set fs \<Longrightarrow> distinct (fst f)" "\<And>p. visits fs p \<le> 1"
  shows "distinct (concat (map fst fs))"
  using assms
proof (induction fs)
  case Nil
  then show ?case by simp
next
  case (Cons f fs)
  have v: "visits (f # fs) p = (if p \<in> set (fst f) then 1 else 0) + visits fs p" for p
    by (simp add: visits_def)
  have "visits fs p \<le> 1" for p using Cons.prems(2)[of p] v[of p] by simp
  then have d: "distinct (concat (map fst fs))" using Cons.IH Cons.prems(1) by simp
  have "set (fst f) \<inter> set (concat (map fst fs)) = {}"
  proof (rule ccontr)
    assume "set (fst f) \<inter> set (concat (map fst fs)) \<noteq> {}"
    then obtain p h where p: "p \<in> set (fst f)" "h \<in> set fs" "p \<in> set (fst h)" by auto
    then have "filter (\<lambda>f. p \<in> set (fst f)) fs \<noteq> []" by (auto simp: filter_empty_conv)
    then have "1 \<le> visits fs p" by (simp add: visits_def Suc_le_eq)
    with p(1) v[of p] Cons.prems(2)[of p] show False by simp
  qed
  with d Cons.prems(1)[of f] show ?case by simp
qed

lemma visits_filter_le: "visits (filter P fs) p \<le> visits fs p"
proof -
  have "filter (\<lambda>f. p \<in> set (fst f)) (filter P fs) = filter P (filter (\<lambda>f. p \<in> set (fst f)) fs)"
    by (simp add: conj_commute)
  then show ?thesis by (simp add: visits_def del: filter_filter)
qed

text \<open>The flood-fill runs of a whole claiming pass.\<close>

lemma claim_pass_visits:
  assumes wf: "well_formed s"
  shows "\<exists>g t fills. set_cells BORDER (trail s) (grid s) = Some g \<and>
           claim_territory_fills s = Some (t, fills) \<and>
           (\<forall>p. cell_at (s\<lparr>grid := g\<rparr>) p = (if p \<in> set (trail s) then Some BORDER else cell_at s p)) \<and>
           (\<forall>p. empty_at (s\<lparr>grid := g\<rparr>) p \<longrightarrow>
                  finite (region (s\<lparr>grid := g\<rparr>) p) \<and> p \<in> region (s\<lparr>grid := g\<rparr>) p) \<and>
           distinct (concat (map fst (filter (\<lambda>f. \<not> snd f) fills))) \<and>
           (\<forall>p. visits fills p =
              (if empty_at (s\<lparr>grid := g\<rparr>) p
               then (if enemy_in s (region (s\<lparr>grid := g\<rparr>) p)
                     then card (region (s\<lparr>grid := g\<rparr>) p) else 1)
               else 0))"
proof -
  from claim_territory_fills_inv[OF wf] obtain g t fills
    where sc: "set_cells BORDER (trail s) (grid s) = Some g"
      and ctf: "claim_territory_fills s = Some (t, fills)"
      and cg: "\<forall>p. cell_at (s\<lparr>grid := g\<rparr>) p = (if p \<in> set (trail s) then Some BORDER else cell_at s p)"
      and int: "\<forall>p. empty_at (s\<lparr>grid := g\<rparr>) p \<longrightarrow> p \<in> set (interior s)"
      and inv: "scan_inv (s\<lparr>grid := g\<rparr>) (interior s) (t, fills)"
    by blast
  let ?s1 = "s\<lparr>grid := g\<rparr>"
  note fl = scan_inv_fills(1)[OF inv] and vs = scan_inv_fills(2)[OF inv]
  have sub: "region ?s1 p \<subseteq> set (interior s)" for p
    using int by (auto dest: region_empty_at)
  have fin: "finite (region ?s1 p) \<and> p \<in> region ?s1 p" if "empty_at ?s1 p" for p
    using finite_subset[OF sub[of p]] region_self[OF that] by simp
  have len: "length (filter (\<lambda>c. c \<in> region ?s1 p) (interior s)) = card (region ?s1 p)" for p
  proof -
    have "{x. x \<in> region ?s1 p} \<inter> set (interior s) = region ?s1 p" using sub[of p] by auto
    then show ?thesis using distinct_length_filter[OF distinct_interior, of "\<lambda>c. c \<in> region ?s1 p" s]
      by simp
  qed
  have vis: "visits fills p =
              (if empty_at ?s1 p
               then (if enemy_in s (region ?s1 p) then card (region ?s1 p) else 1)
               else 0)" for p
  proof (cases "empty_at ?s1 p")
    case False
    then show ?thesis using vs[of p] by simp
  next
    case True
    then have "region ?s1 p \<inter> set (interior s) \<noteq> {}" using fin[OF True] sub[of p] by auto
    then show ?thesis using vs[of p] True len[of p] by simp
  qed
  have claimed_once: "visits (filter (\<lambda>f. \<not> snd f) fills) p \<le> 1" for p
  proof (cases "empty_at ?s1 p \<and> enemy_in s (region ?s1 p)")
    case False
    then have "visits fills p \<le> 1" using vis[of p] by auto
    with visits_filter_le[of "\<lambda>f. \<not> snd f" fills p] show ?thesis by simp
  next
    case True
    have "filter (\<lambda>f. p \<in> set (fst f)) (filter (\<lambda>f. \<not> snd f) fills) = []"
    proof -
      have "snd f" if "f \<in> set fills" "p \<in> set (fst f)" for f
        using fl[OF that(1)] that(2) True by auto
      then show ?thesis by (auto simp: filter_empty_conv)
    qed
    then show ?thesis by (simp add: visits_def)
  qed
  have "distinct (concat (map fst (filter (\<lambda>f. \<not> snd f) fills)))"
    by (rule distinct_concat_visits) (use fl claimed_once in auto)
  with sc ctf cg fin vis show ?thesis by blast
qed

text \<open>
  Claim C9, as amended. Within one claiming pass of a well-formed game the areas that are
  claimed share no cell, so no cell's contribution to the claimed-area growth is counted
  twice, and a cell of a region without an enemy is visited by exactly one flood-fill run.
  A cell of an \<open>EMPTY\<close> region that holds an enemy is visited by as many runs as the region
  has cells: the region stays \<open>EMPTY\<close> and the scan starts a new run from each of its
  cells. A cell that is not \<open>EMPTY\<close> after the trail has been marked is visited by no run.
\<close>

theorem claim_pass_runs:
  assumes "well_formed s"
  shows "\<exists>g t fills. set_cells BORDER (trail s) (grid s) = Some g \<and>
           claim_territory_fills s = Some (t, fills) \<and>
           distinct (concat (map fst (filter (\<lambda>f. \<not> snd f) fills))) \<and>
           (\<forall>p. visits fills p =
              (if empty_at (s\<lparr>grid := g\<rparr>) p
               then (if enemy_in s (region (s\<lparr>grid := g\<rparr>) p)
                     then card (region (s\<lparr>grid := g\<rparr>) p) else 1)
               else 0))"
  using claim_pass_visits[OF assms] by blast

theorem claim_pass_runs_witness:
  "well_formed small_game \<and>
   (\<exists>g t fills. set_cells BORDER (trail small_game) (grid small_game) = Some g \<and>
           claim_territory_fills small_game = Some (t, fills) \<and>
           distinct (concat (map fst (filter (\<lambda>f. \<not> snd f) fills))) \<and>
           (\<forall>p. visits fills p =
              (if empty_at (small_game\<lparr>grid := g\<rparr>) p
               then (if enemy_in small_game (region (small_game\<lparr>grid := g\<rparr>) p)
                     then card (region (small_game\<lparr>grid := g\<rparr>) p) else 1)
               else 0)))"
  using claim_pass_runs [OF small_game_well_formed] small_game_well_formed by blast

text \<open>
  Claim C9 as stated, that every cell is visited by at most one flood-fill run of a pass,
  fails on the board of the class constants: with an enemy in the region of \<open>(1, 1)\<close> the
  run started at \<open>(1, 1)\<close> leaves the region \<open>EMPTY\<close>, and the run started at \<open>(2, 1)\<close>
  visits \<open>(1, 1)\<close> again.
\<close>

theorem claim_pass_revisits_counterexample: "\<not> pass_visits trapped_game (1, 1) \<le> 1"
proof -
  from claim_pass_visits[OF trapped_well_formed] obtain g t fills
    where ctf: "claim_territory_fills trapped_game = Some (t, fills)"
      and cg: "\<forall>p. cell_at (trapped_game\<lparr>grid := g\<rparr>) p
                 = (if p \<in> set (trail trapped_game) then Some BORDER else cell_at trapped_game p)"
      and fin: "\<forall>p. empty_at (trapped_game\<lparr>grid := g\<rparr>) p \<longrightarrow>
                  finite (region (trapped_game\<lparr>grid := g\<rparr>) p) \<and> p \<in> region (trapped_game\<lparr>grid := g\<rparr>) p"
      and vis: "\<forall>p. visits fills p =
              (if empty_at (trapped_game\<lparr>grid := g\<rparr>) p
               then (if enemy_in trapped_game (region (trapped_game\<lparr>grid := g\<rparr>) p)
                     then card (region (trapped_game\<lparr>grid := g\<rparr>) p) else 1)
               else 0)"
    by blast
  let ?s1 = "trapped_game\<lparr>grid := g\<rparr>"
  have tr: "trail trapped_game = [(35, 1)]" by (simp add: trapped_game_def)
  have e1: "empty_at ?s1 (1, 1)"
    using cg[rule_format, of "(1, 1)"] trapped_cell[of "(1, 1)"]
    by (simp add: empty_at_def tr in_board_def trapped_game_def XonixGame_def)
  have e2: "empty_at ?s1 (2, 1)"
    using cg[rule_format, of "(2, 1)"] trapped_cell[of "(2, 1)"]
    by (simp add: empty_at_def tr in_board_def trapped_game_def XonixGame_def)
  have r1: "(1, 1) \<in> region ?s1 (1, 1)" using e1 by (rule region_start)
  have r2: "(2, 1) \<in> region ?s1 (1, 1)"
    by (rule region_step[OF r1 _ e2]) (simp add: adjacent_def)
  have en: "enemy_in trapped_game (region ?s1 (1, 1))"
    using r1 by (simp add: enemy_in_def trapped_game_def XonixGame_def)
  have "finite (region ?s1 (1, 1))" using fin e1 by blast
  moreover have "{(1, 1), (2, 1)} \<subseteq> region ?s1 (1, 1)" using r1 r2 by simp
  ultimately have "card {(1, 1) :: int \<times> int, (2, 1)} \<le> card (region ?s1 (1, 1))"
    by (rule card_mono)
  then have "2 \<le> card (region ?s1 (1, 1))" by simp
  then have "2 \<le> visits fills (1, 1)" using vis[rule_format, of "(1, 1)"] e1 en by simp
  then show ?thesis by (simp add: pass_visits_def ctf)
qed

section \<open>The grid that a reset builds\<close>

lemma write_pairs_shape:
  "grid_shape s \<Longrightarrow> \<forall>a\<in>set xs. in_board s (fx a) (fy a) \<and> in_board s (hx a) (hy a) \<Longrightarrow>
     \<exists>g'. for_each xs (\<lambda>a g. case grid_write g (fx a) (fy a) v of None \<Rightarrow> None
                              | Some g1 \<Rightarrow> grid_write g1 (hx a) (hy a) v) (grid s) = Some g' \<and>
           grid_shape (s\<lparr>grid := g'\<rparr>) \<and>
           (\<forall>p. cell_at (s\<lparr>grid := g'\<rparr>) p
              = (if p \<in> (\<lambda>a. (fx a, fy a)) ` set xs \<union> (\<lambda>a. (hx a, hy a)) ` set xs
                 then Some v else cell_at s p))"
proof (induction xs arbitrary: s)
  case Nil
  then show ?case by (simp add: cell_at_def)
next
  case (Cons a xs)
  have ib: "in_board s (fx a) (fy a)" "in_board s (hx a) (hy a)" using Cons.prems(2) by simp_all
  from grid_write_shape[OF Cons.prems(1) ib(1), of v] obtain g1
    where w1: "grid_write (grid s) (fx a) (fy a) v = Some g1" and sh1: "grid_shape (s\<lparr>grid := g1\<rparr>)"
      and c1: "\<forall>p. cell_at (s\<lparr>grid := g1\<rparr>) p = (if p = (fx a, fy a) then Some v else cell_at s p)"
    by blast
  have ib2: "in_board (s\<lparr>grid := g1\<rparr>) (hx a) (hy a)" using ib(2) by simp
  from grid_write_shape[OF sh1 ib2, of v] obtain g2
    where w2: "grid_write g1 (hx a) (hy a) v = Some g2" and sh2: "grid_shape (s\<lparr>grid := g2\<rparr>)"
      and c2: "\<forall>p. cell_at (s\<lparr>grid := g2\<rparr>) p
                 = (if p = (hx a, hy a) then Some v else cell_at (s\<lparr>grid := g1\<rparr>) p)"
    by auto
  have "\<forall>a\<in>set xs. in_board (s\<lparr>grid := g2\<rparr>) (fx a) (fy a) \<and> in_board (s\<lparr>grid := g2\<rparr>) (hx a) (hy a)"
    using Cons.prems(2) by simp
  from Cons.IH[OF sh2 this] obtain g'
    where fe: "for_each xs (\<lambda>a g. case grid_write g (fx a) (fy a) v of None \<Rightarrow> None
                              | Some g1 \<Rightarrow> grid_write g1 (hx a) (hy a) v) g2 = Some g'"
      and sh': "grid_shape (s\<lparr>grid := g'\<rparr>)"
      and c': "\<forall>p. cell_at (s\<lparr>grid := g'\<rparr>) p
              = (if p \<in> (\<lambda>a. (fx a, fy a)) ` set xs \<union> (\<lambda>a. (hx a, hy a)) ` set xs
                 then Some v else cell_at (s\<lparr>grid := g2\<rparr>) p)"
    by auto
  have "for_each (a # xs) (\<lambda>a g. case grid_write g (fx a) (fy a) v of None \<Rightarrow> None
                              | Some g1 \<Rightarrow> grid_write g1 (hx a) (hy a) v) (grid s) = Some g'"
    using w1 w2 fe by simp
  moreover have "\<forall>p. cell_at (s\<lparr>grid := g'\<rparr>) p
              = (if p \<in> (\<lambda>a. (fx a, fy a)) ` set (a # xs) \<union> (\<lambda>a. (hx a, hy a)) ` set (a # xs)
                 then Some v else cell_at s p)"
    using c' c2 c1 by auto
  ultimately show ?case using sh' by blast
qed

lemma replicate_shape:
  "grid_shape (s\<lparr>grid := replicate (nat (GRID_HEIGHT s)) (replicate (nat (GRID_WIDTH s)) EMPTY)\<rparr>)"
  by (simp add: grid_shape_def list_all_iff)

lemma replicate_cell:
  "cell_at (s\<lparr>grid := replicate (nat (GRID_HEIGHT s)) (replicate (nat (GRID_WIDTH s)) EMPTY)\<rparr>) p
     = (if in_board s (fst p) (snd p) then Some EMPTY else None)"
proof (cases "in_board s (fst p) (snd p)")
  case False
  then show ?thesis by (simp add: cell_at_def)
next
  case True
  then have "nat (snd p) < nat (GRID_HEIGHT s)" "nat (fst p) < nat (GRID_WIDTH s)"
    by (simp_all add: in_board_def)
  then show ?thesis
    using cell_at_in_board[OF replicate_shape[of s], of p] True by simp
qed

lemma reset_game_state_result:
  assumes "sane_constants s"
  shows "\<exists>g. reset_game_state draws s
           = Some (s\<lparr>grid := g, player_x := GRID_WIDTH s div 2, player_y := 0,
                     enemies := map (\<lambda>(rx, ry, vx, vy).
                                  \<lparr>enemy_x = rx * GRID_SIZE s, enemy_y = ry * GRID_SIZE s,
                                   enemy_vx = vx, enemy_vy = vy, enemy_radius = 8\<rparr>) draws,
                     trail := [], drawing := False, score := 0,
                     game_over := False, game_won := False, message := []\<rparr>) \<and>
         grid_shape (s\<lparr>grid := g\<rparr>) \<and>
         (\<forall>p. cell_at (s\<lparr>grid := g\<rparr>) p
            = (if p \<in> set (ring s) then Some BORDER
               else if in_board s (fst p) (snd p) then Some EMPTY else None))"
proof -
  have W: "1 \<le> GRID_WIDTH s" and H: "1 \<le> GRID_HEIGHT s"
    using assms by (simp_all add: sane_constants_def)
  let ?g0 = "replicate (nat (GRID_HEIGHT s)) (replicate (nat (GRID_WIDTH s)) EMPTY)"
  let ?s0 = "s\<lparr>grid := ?g0\<rparr>"
  have sh0: "grid_shape ?s0" by (rule replicate_shape)
  have ib1: "\<forall>x\<in>set [0..GRID_WIDTH s - 1]. in_board ?s0 x 0 \<and> in_board ?s0 x (GRID_HEIGHT s - 1)"
    using H by (simp add: in_board_def)
  from write_pairs_shape[OF sh0, where xs = "[0..GRID_WIDTH s - 1]" and fx = "\<lambda>x. x" and fy = "\<lambda>x. 0"
      and hx = "\<lambda>x. x" and hy = "\<lambda>x. GRID_HEIGHT s - 1" and v = BORDER, OF ib1]
  obtain g1 where l1: "for_each [0..GRID_WIDTH s - 1]
                (\<lambda>x g. case grid_write g x 0 BORDER of None \<Rightarrow> None
                       | Some g' \<Rightarrow> grid_write g' x (GRID_HEIGHT s - 1) BORDER) ?g0 = Some g1"
    and sh1: "grid_shape (s\<lparr>grid := g1\<rparr>)"
    and c1: "\<forall>p. cell_at (s\<lparr>grid := g1\<rparr>) p
              = (if p \<in> (\<lambda>x. (x, 0)) ` set [0..GRID_WIDTH s - 1]
                       \<union> (\<lambda>x. (x, GRID_HEIGHT s - 1)) ` set [0..GRID_WIDTH s - 1]
                 then Some BORDER else cell_at ?s0 p)"
    by auto
  have ib2: "\<forall>y\<in>set [0..GRID_HEIGHT s - 1]. in_board (s\<lparr>grid := g1\<rparr>) 0 y
               \<and> in_board (s\<lparr>grid := g1\<rparr>) (GRID_WIDTH s - 1) y"
    using W by (simp add: in_board_def)
  from write_pairs_shape[OF sh1, where xs = "[0..GRID_HEIGHT s - 1]" and fx = "\<lambda>y. 0" and fy = "\<lambda>y. y"
      and hx = "\<lambda>y. GRID_WIDTH s - 1" and hy = "\<lambda>y. y" and v = BORDER, OF ib2]
  obtain g2 where l2: "for_each [0..GRID_HEIGHT s - 1]
                     (\<lambda>y g. case grid_write g 0 y BORDER of None \<Rightarrow> None
                            | Some g' \<Rightarrow> grid_write g' (GRID_WIDTH s - 1) y BORDER) g1 = Some g2"
    and sh2: "grid_shape (s\<lparr>grid := g2\<rparr>)"
    and c2: "\<forall>p. cell_at (s\<lparr>grid := g2\<rparr>) p
              = (if p \<in> (\<lambda>y. (0, y)) ` set [0..GRID_HEIGHT s - 1]
                       \<union> (\<lambda>y. (GRID_WIDTH s - 1, y)) ` set [0..GRID_HEIGHT s - 1]
                 then Some BORDER else cell_at (s\<lparr>grid := g1\<rparr>) p)"
    by auto
  have r: "set (ring s) = (\<lambda>x. (x, 0)) ` set [0..GRID_WIDTH s - 1]
                       \<union> (\<lambda>x. (x, GRID_HEIGHT s - 1)) ` set [0..GRID_WIDTH s - 1]
                       \<union> ((\<lambda>y. (0, y)) ` set [0..GRID_HEIGHT s - 1]
                       \<union> (\<lambda>y. (GRID_WIDTH s - 1, y)) ` set [0..GRID_HEIGHT s - 1])"
    by (simp add: ring_def Un_assoc)
  have cells: "\<forall>p. cell_at (s\<lparr>grid := g2\<rparr>) p
            = (if p \<in> set (ring s) then Some BORDER
               else if in_board s (fst p) (snd p) then Some EMPTY else None)"
    unfolding r using c2 c1 replicate_cell[of s] by auto
  have "reset_game_state draws s
           = Some (s\<lparr>grid := g2, player_x := GRID_WIDTH s div 2, player_y := 0,
                     enemies := map (\<lambda>(rx, ry, vx, vy).
                                  \<lparr>enemy_x = rx * GRID_SIZE s, enemy_y = ry * GRID_SIZE s,
                                   enemy_vx = vx, enemy_vy = vy, enemy_radius = 8\<rparr>) draws,
                     trail := [], drawing := False, score := 0,
                     game_over := False, game_won := False, message := []\<rparr>)"
    by (simp add: reset_game_state_def l1 l2)
  with sh2 cells show ?thesis by blast
qed

end
